theory Spec2Isabelle
  imports Main "HOL-Library.Sublist"
begin

section \<open>Strings of the handler\<close>

text \<open>
  The handler of \<^verbatim>\<open>functions/index.js\<close> works on JavaScript strings. They are modelled
  as \<^typ>\<open>string\<close>, one \<^typ>\<open>char\<close> per UTF-16 code unit, which represents the code
  units U+0000 to U+00FF; text with code units above U+00FF is not represented.
  \<open>code\<close> is the numeric value of a code unit.
\<close>

definition code :: "char \<Rightarrow> nat" where
  "code c = of_char c"

text \<open>
  \<^verbatim>\<open>String.prototype.trim\<close> removes leading and trailing WhiteSpace and LineTerminator
  code points; those up to U+00FF are TAB, LF, VT, FF, CR, SP and NBSP.
\<close>

definition isWhiteSpace :: "char \<Rightarrow> bool" where
  "isWhiteSpace c = (code c \<in> {0x09, 0x0A, 0x0B, 0x0C, 0x0D, 0x20, 0xA0})"

definition trim :: "string \<Rightarrow> string" where
  "trim s = rev (dropWhile isWhiteSpace (rev (dropWhile isWhiteSpace s)))"

text \<open>
  Case mappings on code units. \<open>canonicalize\<close> is the Canonicalize operation of a
  regular expression with the \<^verbatim>\<open>i\<close> flag and without the \<^verbatim>\<open>u\<close> flag: the upper-case
  form when that is a single code unit, except that a code unit from U+0080 on is never
  mapped below U+0080. In the represented range the letters a-z and the Latin-1 letters
  U+00E0 to U+00FE (but not the division sign U+00F7) move down by 0x20. The upper-case
  forms of U+00B5 and U+00FF lie above U+00FF, where no represented code unit has the
  same canonical form, and U+00DF has none of one code unit: the three stay as they are.
\<close>

definition canonicalize :: "nat \<Rightarrow> nat" where
  "canonicalize n =
     (if (0x61 \<le> n \<and> n \<le> 0x7A) \<or> (0xE0 \<le> n \<and> n \<le> 0xFE \<and> n \<noteq> 0xF7) then n - 0x20 else n)"

definition lowerCode :: "nat \<Rightarrow> nat" where
  "lowerCode n =
     (if (0x41 \<le> n \<and> n \<le> 0x5A) \<or> (0xC0 \<le> n \<and> n \<le> 0xDE \<and> n \<noteq> 0xD7) then n + 0x20 else n)"

text \<open>\<^verbatim>\<open>String.prototype.toLowerCase\<close>: every upper-case letter up to U+00FF has its
  lower-case form in the same range.\<close>

definition toLowerCase :: "string \<Rightarrow> string" where
  "toLowerCase s = map (\<lambda>c. char_of (lowerCode (code c))) s"

text \<open>
  \<^verbatim>\<open>String.prototype.toUpperCase\<close>: U+00DF becomes \<^verbatim>\<open>SS\<close>. The upper-case forms of
  U+00B5 and U+00FF are not represented and the two are left unchanged here; the handler
  only upper-cases text matched by \<^verbatim>\<open>[A-Z0-9]{10}\<close>, which holds neither.
\<close>

definition toUpperCase :: "string \<Rightarrow> string" where
  "toUpperCase s =
     concat (map (\<lambda>c. if code c = 0xDF then ''SS'' else [char_of (canonicalize (code c))]) s)"

text \<open>The ASCII letters and digits, by code unit.\<close>

definition isAlnumCode :: "nat \<Rightarrow> bool" where
  "isAlnumCode n = ((48 \<le> n \<and> n \<le> 57) \<or> (65 \<le> n \<and> n \<le> 90) \<or> (97 \<le> n \<and> n \<le> 122))"

definition isAlnumChar :: "char \<Rightarrow> bool" where
  "isAlnumChar c = isAlnumCode (code c)"

text \<open>
  \<^verbatim>\<open>encodeURIComponent\<close> keeps the unreserved characters and writes every other code
  point as the percent-escaped bytes of its UTF-8 form: one byte below U+0080, two bytes
  from there to U+00FF.
\<close>

definition hexDigit :: "nat \<Rightarrow> char" where
  "hexDigit n = ''0123456789ABCDEF'' ! n"

definition percent :: "nat \<Rightarrow> string" where
  "percent b = [CHR ''%'', hexDigit (b div 16), hexDigit (b mod 16)]"

definition uriUnreserved :: "char \<Rightarrow> bool" where
  "uriUnreserved c = (isAlnumChar c \<or> c \<in> set ''-_.!~*'()'')"

definition encodeURIComponent :: "string \<Rightarrow> string" where
  "encodeURIComponent s =
     concat (map (\<lambda>c.
       if uriUnreserved c then [c]
       else if code c < 0x80 then percent (code c)
       else percent (0xC0 + code c div 0x40) @ percent (0x80 + code c mod 0x40)) s)"

text \<open>\<^verbatim>\<open>s.split(sep)\<close> for a separator of one character; the result is never empty, and
  \<^verbatim>\<open>[0]\<close> is its head.\<close>

fun split :: "char \<Rightarrow> string \<Rightarrow> string list" where
  "split sep [] = [[]]"
| "split sep (c # cs) =
     (if c = sep then [] # split sep cs
      else (case split sep cs of [] \<Rightarrow> [[c]] | p # ps \<Rightarrow> (c # p) # ps))"

text \<open>\<^verbatim>\<open>a || b\<close> on strings (the empty string is falsy), \<^verbatim>\<open>q || ""\<close> on a request value
  that may be absent, and \<^verbatim>\<open>a || null\<close>.\<close>

definition orElse :: "string \<Rightarrow> string \<Rightarrow> string" where
  "orElse a b = (if a = [] then b else a)"

definition orEmpty :: "string option \<Rightarrow> string" where
  "orEmpty q = (case q of None \<Rightarrow> [] | Some s \<Rightarrow> s)"

definition orNull :: "string \<Rightarrow> string option" where
  "orNull a = (if a = [] then None else Some a)"

section \<open>Regular expressions\<close>

text \<open>
  The patterns of the handler use literals, character classes, sequence, alternation,
  \<^verbatim>\<open>?\<close>, \<^verbatim>\<open>{n}\<close>, one capturing group, \<^verbatim>\<open>^\<close> and \<^verbatim>\<open>$\<close> (without the \<^verbatim>\<open>m\<close> flag).
  \<open>m\<close> is the backtracking matcher of the language standard in continuation style: the
  state is the index reached, the input left from there and the text of the group.
\<close>

datatype node =
    Chr char
  | Cls "(char \<times> char) list"
  | Cat node node
  | Alt node node
  | Opt node
  | Grp node
  | Eps
  | Bol
  | Eol

text \<open>A literal string, and \<^verbatim>\<open>a{n}\<close>.\<close>

fun lit :: "string \<Rightarrow> node" where
  "lit [] = Eps"
| "lit (c # cs) = Cat (Chr c) (lit cs)"

fun rep :: "nat \<Rightarrow> node \<Rightarrow> node" where
  "rep 0 a = Eps"
| "rep (Suc n) a = Cat a (rep n a)"

definition sameChar :: "bool \<Rightarrow> char \<Rightarrow> char \<Rightarrow> bool" where
  "sameChar ic a b =
     (if ic then canonicalize (code a) = canonicalize (code b) else a = b)"

text \<open>A class is a list of ranges; a code unit is in it when some member of a range has
  the same canonical form.\<close>

definition inClass :: "bool \<Rightarrow> (char \<times> char) list \<Rightarrow> char \<Rightarrow> bool" where
  "inClass ic rs x =
     list_ex (\<lambda>(lo, hi).
        list_ex (\<lambda>n. if ic then canonicalize n = canonicalize (code x) else n = code x)
          [code lo ..< Suc (code hi)]) rs"

type_synonym mstate = "nat \<times> string \<times> string option"

fun m :: "bool \<Rightarrow> node \<Rightarrow> mstate \<Rightarrow> (mstate \<Rightarrow> 'r option) \<Rightarrow> 'r option" where
  "m ic (Chr c) (i, xs, g) k =
     (case xs of [] \<Rightarrow> None | x # ys \<Rightarrow> if sameChar ic c x then k (Suc i, ys, g) else None)"
| "m ic (Cls rs) (i, xs, g) k =
     (case xs of [] \<Rightarrow> None | x # ys \<Rightarrow> if inClass ic rs x then k (Suc i, ys, g) else None)"
| "m ic (Cat a b) st k = m ic a st (\<lambda>st'. m ic b st' k)"
| "m ic (Alt a b) st k = (case m ic a st k of Some r \<Rightarrow> Some r | None \<Rightarrow> m ic b st k)"
| "m ic (Opt a) st k = (case m ic a st k of Some r \<Rightarrow> Some r | None \<Rightarrow> k st)"
| "m ic (Grp a) (i, xs, g) k =
     m ic a (i, xs, g) (\<lambda>(j, ys, g'). k (j, ys, Some (take (j - i) xs)))"
| "m ic Eps st k = k st"
| "m ic Bol (i, xs, g) k = (if i = 0 then k (i, xs, g) else None)"
| "m ic Eol (i, xs, g) k = (if xs = [] then k (i, xs, g) else None)"

text \<open>
  \<^verbatim>\<open>RegExp.prototype.exec\<close> without the \<^verbatim>\<open>g\<close> and \<^verbatim>\<open>y\<close> flags tries every start index
  from 0 to the length of the input and returns the first match: the matched text and
  the text of group 1 (\<^verbatim>\<open>m[0]\<close> and \<^verbatim>\<open>m[1]\<close>), or \<open>None\<close> for \<^verbatim>\<open>null\<close>.
\<close>

fun search :: "bool \<Rightarrow> node \<Rightarrow> nat \<Rightarrow> string \<Rightarrow> (string \<times> string option) option" where
  "search ic r i [] = m ic r (i, [], None) (\<lambda>(j, ys, g). Some ([], g))"
| "search ic r i (x # xs) =
     (case m ic r (i, x # xs, None) (\<lambda>(j, ys, g). Some (take (j - i) (x # xs), g)) of
        Some res \<Rightarrow> Some res
      | None \<Rightarrow> search ic r (Suc i) xs)"

record regexp =
  pattern :: node
  ignoreCase :: bool

definition js_match :: "string \<Rightarrow> regexp \<Rightarrow> (string \<times> string option) option" where
  "js_match s re = search (ignoreCase re) (pattern re) 0 s"

definition js_test :: "regexp \<Rightarrow> string \<Rightarrow> bool" where
  "js_test re s = (js_match s re \<noteq> None)"

section \<open>The handler\<close>

subsection \<open>Configuration\<close>

definition ENABLE_LOGGING :: bool where
  "ENABLE_LOGGING = True"

definition DEFAULT_AFF_TAG :: string where
  "DEFAULT_AFF_TAG = ''shop4me0e-21''"

definition AMAZON_HOST :: string where
  "AMAZON_HOST = ''https://www.amazon.in''"

definition ALLOWLIST_HOSTS :: "string set" where
  "ALLOWLIST_HOSTS = {''www.amazon.in'', ''amazon.in'', ''amzn.to'', ''m.amazon.in''}"

subsection \<open>URLs\<close>

text \<open>
  \<^verbatim>\<open>new URL(raw)\<close> is the platform's URL parser, not code of the repository: the handler
  takes it as a parameter, a function that returns \<open>None\<close> where the constructor throws.
  Of a parsed URL the handler reads \<^verbatim>\<open>hostname\<close> and \<^verbatim>\<open>toString()\<close>, the serialised
  form \<open>href\<close>.
\<close>

record url =
  hostname :: string
  href :: string

type_synonym urlParser = "string \<Rightarrow> url option"

definition safeUrl :: "urlParser \<Rightarrow> string \<Rightarrow> url option" where
  "safeUrl parse raw = (case parse raw of Some u \<Rightarrow> Some u | None \<Rightarrow> None)"

definition isAllowedTarget :: "url option \<Rightarrow> bool" where
  "isAllowedTarget urlObj =
     (case urlObj of
        None \<Rightarrow> False
      | Some u \<Rightarrow> toLowerCase (orElse (hostname u) []) \<in> ALLOWLIST_HOSTS)"

subsection \<open>Identifier extraction\<close>

definition alnum :: node where
  "alnum = Cls [(CHR ''A'', CHR ''Z''), (CHR ''0'', CHR ''9'')]"

definition delim :: node where
  "delim = Alt (Cls [(CHR ''/'', CHR ''/''), (CHR ''?'', CHR ''?'')]) Eol"

text \<open>\<^verbatim>\<open>/\/(?:dp|gp\/product|product)\/([A-Z0-9]{10})(?:[/?]|$)/i\<close>\<close>

definition re_path :: regexp where
  "re_path =
     \<lparr>pattern =
        Cat (Chr CHR ''/'')
          (Cat (Alt (lit ''dp'') (Alt (lit ''gp/product'') (lit ''product'')))
            (Cat (Chr CHR ''/'') (Cat (Grp (rep 10 alnum)) delim))),
      ignoreCase = True\<rparr>"

text \<open>\<^verbatim>\<open>/([A-Z0-9]{10})(?:[/?]|$)/i\<close>\<close>

definition re_token :: regexp where
  "re_token = \<lparr>pattern = Cat (Grp (rep 10 alnum)) delim, ignoreCase = True\<rparr>"

text \<open>\<open>group1\<close> is \<^verbatim>\<open>m && m[1]\<close>: the text of group 1 when there is a match and the text
  is not empty.\<close>

definition group1 :: "(string \<times> string option) option \<Rightarrow> string option" where
  "group1 r =
     (case r of
        None \<Rightarrow> None
      | Some (whole, None) \<Rightarrow> None
      | Some (whole, Some g) \<Rightarrow> if g = [] then None else Some g)"

definition extractAsin :: "string \<Rightarrow> string" where
  "extractAsin s =
     (if s = [] then []
      else let str = trim s in
        (case group1 (js_match str re_path) of
           Some g \<Rightarrow> toUpperCase g
         | None \<Rightarrow>
            (case group1 (js_match str re_token) of
               Some g \<Rightarrow> toUpperCase g
             | None \<Rightarrow> [])))"

subsection \<open>Affiliate link\<close>

definition buildAmazonAffiliateUrl :: "string \<Rightarrow> string \<Rightarrow> string" where
  "buildAmazonAffiliateUrl asin tag =
     (let t = orElse (trim (orElse tag DEFAULT_AFF_TAG)) DEFAULT_AFF_TAG
      in AMAZON_HOST @ ''/dp/'' @ encodeURIComponent asin @ ''?tag='' @ encodeURIComponent t)"

subsection \<open>The request handler\<close>

text \<open>
  A request carries the query values (after \<^verbatim>\<open>toString()\<close>; \<open>None\<close> when the parameter is
  absent), the two headers the handler reads and the peer address \<^verbatim>\<open>req.ip\<close>.
\<close>

record request =
  q_to :: "string option"
  q_asin :: "string option"
  q_tag :: "string option"
  q_src :: "string option"
  q_created_by :: "string option"
  q_created_at :: "string option"
  h_x_forwarded_for :: "string option"
  h_user_agent :: "string option"
  req_ip :: "string option"

text \<open>
  \<open>docData\<close> is the document written to the \<^verbatim>\<open>clicks\<close> collection; its fields carry the
  prefix \<open>d_\<close> because a field and a variable of the handler cannot share a name here.
  \<^verbatim>\<open>null\<close> is \<open>None\<close>, and \<open>ServerTimestamp\<close> is the sentinel
  \<^verbatim>\<open>FieldValue.serverTimestamp()\<close>.
\<close>

datatype fieldValue = ServerTimestamp

record docData =
  d_targetUrl :: string
  d_asin :: "string option"
  d_tag :: string
  d_src :: "string option"
  d_created_by :: "string option"
  d_created_at :: "string option"
  d_ip :: "string option"
  d_userAgent :: "string option"
  d_ts :: fieldValue

text \<open>\<^verbatim>\<open>res.status(n).send(body)\<close> and \<^verbatim>\<open>res.redirect(n, location)\<close>, with the headers set
  before.\<close>

datatype reply = Send nat string | Redirect nat string

record response =
  headers :: "(string \<times> string) list"
  reply :: reply

text \<open>\<^verbatim>\<open>/^https?:\/\//i\<close>\<close>

definition re_scheme :: regexp where
  "re_scheme =
     \<lparr>pattern = Cat Bol (Cat (lit ''http'') (Cat (Opt (Chr CHR ''s'')) (lit ''://''))),
      ignoreCase = True\<rparr>"

text \<open>
  \<open>go\<close> takes the URL parser, the request and the documents written to \<^verbatim>\<open>clicks\<close> so
  far, and returns the response and the documents written after the call. An early
  \<^verbatim>\<open>return\<close> is the \<open>Inl\<close> of \<open>target\<close>. The write is issued and not awaited, and its
  failure is only logged: it has no part in the response. The \<^verbatim>\<open>catch\<close> of the handler
  answers 500; the one statement of the \<^verbatim>\<open>try\<close> block that could throw in this model is
  \<^verbatim>\<open>u.toString()\<close> on \<^verbatim>\<open>null\<close>.
\<close>

definition go :: "urlParser \<Rightarrow> request \<Rightarrow> docData list \<Rightarrow> response \<times> docData list" where
  "go parse req clicks =
     (let hdrs = [(''Cache-Control'', ''no-store, max-age=0'')];
          to = trim (orEmpty (q_to req));
          asinParam = trim (orEmpty (q_asin req));
          tagParam = trim (orEmpty (q_tag req));
          target =
            (if to \<noteq> [] then
               (if \<not> js_test re_scheme to
                then Inl (Send 400 ''Invalid 'to' URL (must start with http/https).'')
                else
                  let u = safeUrl parse to in
                  if \<not> isAllowedTarget u then Inl (Send 400 ''Target host not allowed.'')
                  else (case u of
                          Some v \<Rightarrow> Inr (href v)
                        | None \<Rightarrow> Inl (Send 500 ''Server error'')))
             else
               let asin = extractAsin asinParam in
               if asin = []
               then Inl (Send 400 ''Missing target. Provide ?to=<url> or ?asin=<ASIN>.'')
               else Inr (buildAmazonAffiliateUrl asin tagParam))
      in case target of
           Inl r \<Rightarrow> (\<lparr>headers = hdrs, reply = r\<rparr>, clicks)
         | Inr targetUrl \<Rightarrow>
             (let clicks' =
                (if ENABLE_LOGGING then
                   (let now = ServerTimestamp;
                        ip = orElse (orElse
                               (trim (hd (split CHR '','' (orEmpty (h_x_forwarded_for req)))))
                               (orEmpty (req_ip req))) [];
                        ua = orEmpty (h_user_agent req);
                        asinForLog =
                          orElse (orElse (extractAsin (orEmpty (q_asin req)))
                                         (extractAsin targetUrl)) []
                    in clicks @
                       [\<lparr>d_targetUrl = targetUrl,
                         d_asin = orNull asinForLog,
                         d_tag = orElse (orElse tagParam DEFAULT_AFF_TAG) DEFAULT_AFF_TAG,
                         d_src = orNull (take 120 (orEmpty (q_src req))),
                         d_created_by = orNull (take 200 (orEmpty (q_created_by req))),
                         d_created_at = orNull (take 80 (orEmpty (q_created_at req))),
                         d_ip = orNull ip,
                         d_userAgent = orNull ua,
                         d_ts = now\<rparr>])
                 else clicks)
              in (\<lparr>headers = hdrs, reply = Redirect 302 targetUrl\<rparr>, clicks')))"

section \<open>Reading the patterns\<close>

text \<open>
  What the three patterns accept, written on lists; the lemmas below prove that the
  matcher computes exactly this. \<open>startsWithCI p xs\<close>: the input starts with the
  lower-case literal \<open>p\<close>, in any case. \<open>tokenId xs\<close>: ten ASCII letters or digits at the
  head of the input, followed by \<^verbatim>\<open>/\<close>, \<^verbatim>\<open>?\<close> or the end. \<open>pathId xs\<close>: one of the three path
  prefixes at the head of the input, followed by such a token. \<open>firstSome f xs\<close>: the
  result of \<open>f\<close> at the first suffix of the input where it has one. \<open>isLow\<close> and
  \<open>isUp\<close> are the code units that have an upper-case and a lower-case form of one code
  unit; \<open>alnumPrefix\<close> steps through the first characters of a token one at a time.
\<close>

definition isLow :: "nat \<Rightarrow> bool" where
  "isLow n = ((97 \<le> n \<and> n \<le> 122) \<or> (224 \<le> n \<and> n \<le> 254 \<and> n \<noteq> 247))"

definition isUp :: "nat \<Rightarrow> bool" where
  "isUp n = ((65 \<le> n \<and> n \<le> 90) \<or> (192 \<le> n \<and> n \<le> 222 \<and> n \<noteq> 215))"

definition delimited :: "string \<Rightarrow> bool" where
  "delimited ys = (case ys of [] \<Rightarrow> True | y # _ \<Rightarrow> y = CHR ''/'' \<or> y = CHR ''?'')"

definition tokenAt :: "string \<Rightarrow> bool" where
  "tokenAt xs = (10 \<le> length xs \<and> list_all isAlnumChar (take 10 xs) \<and> delimited (drop 10 xs))"

definition tokenId :: "string \<Rightarrow> string option" where
  "tokenId xs = (if tokenAt xs then Some (take 10 xs) else None)"

definition startsWithCI :: "string \<Rightarrow> string \<Rightarrow> bool" where
  "startsWithCI p xs = (toLowerCase (take (length p) xs) = p)"

definition pathLen :: "string \<Rightarrow> nat option" where
  "pathLen xs =
     (if startsWithCI ''/dp/'' xs then Some 4
      else if startsWithCI ''/gp/product/'' xs then Some 12
      else if startsWithCI ''/product/'' xs then Some 9
      else None)"

definition pathId :: "string \<Rightarrow> string option" where
  "pathId xs = (case pathLen xs of None \<Rightarrow> None | Some n \<Rightarrow> tokenId (drop n xs))"

fun firstSome :: "(string \<Rightarrow> 'a option) \<Rightarrow> string \<Rightarrow> 'a option" where
  "firstSome f [] = f []"
| "firstSome f (x # xs) = (case f (x # xs) of Some r \<Rightarrow> Some r | None \<Rightarrow> firstSome f xs)"

text \<open>The digits and the upper-case ASCII letters: what an extracted identifier is made of.\<close>

definition isUpperAlnum :: "char \<Rightarrow> bool" where
  "isUpperAlnum c = ((48 \<le> code c \<and> code c \<le> 57) \<or> (65 \<le> code c \<and> code c \<le> 90))"

fun alnumPrefix :: "nat \<Rightarrow> string \<Rightarrow> bool" where
  "alnumPrefix 0 xs = True"
| "alnumPrefix (Suc n) [] = False"
| "alnumPrefix (Suc n) (x # xs) = (if isAlnumChar x then alnumPrefix n xs else False)"

section \<open>The two branches and the logged document\<close>

text \<open>
  The handler is one function. For the properties below its parts are named: the
  headers set first, and the document written on success, both as \<open>go\<close> builds them.
\<close>

definition noStore :: "(string \<times> string) list" where
  "noStore = [(''Cache-Control'', ''no-store, max-age=0'')]"

definition clickDoc :: "request \<Rightarrow> string \<Rightarrow> docData" where
  "clickDoc req targetUrl =
     \<lparr>d_targetUrl = targetUrl,
      d_asin = orNull (orElse (orElse (extractAsin (orEmpty (q_asin req))) (extractAsin targetUrl)) []),
      d_tag = orElse (orElse (trim (orEmpty (q_tag req))) DEFAULT_AFF_TAG) DEFAULT_AFF_TAG,
      d_src = orNull (take 120 (orEmpty (q_src req))),
      d_created_by = orNull (take 200 (orEmpty (q_created_by req))),
      d_created_at = orNull (take 80 (orEmpty (q_created_at req))),
      d_ip = orNull (orElse (orElse
               (trim (hd (split CHR '','' (orEmpty (h_x_forwarded_for req)))))
               (orEmpty (req_ip req))) []),
      d_userAgent = orNull (orEmpty (h_user_agent req)),
      d_ts = ServerTimestamp\<rparr>"

text \<open>
  The two branches of target resolution, in the words of the specification: a direct
  URL must begin with \<^verbatim>\<open>http://\<close> or \<^verbatim>\<open>https://\<close> in any case, must parse, and its
  lower-cased host must be one of the four allowed hosts; an identifier is extracted
  and embedded, percent-encoded, with the tag or the default tag. The result is the
  response of an early return (\<open>Inl\<close>) or the destination (\<open>Inr\<close>). Lemma \<open>go_read\<close>
  proves that \<open>go\<close> computes them.
\<close>

definition hasHttpScheme :: "string \<Rightarrow> bool" where
  "hasHttpScheme t = (prefix ''http://'' (toLowerCase t) \<or> prefix ''https://'' (toLowerCase t))"

definition effectiveTag :: "string \<Rightarrow> string" where
  "effectiveTag tagParam = (if tagParam = [] then ''shop4me0e-21'' else tagParam)"

definition directUrlBranch :: "urlParser \<Rightarrow> string \<Rightarrow> reply + string" where
  "directUrlBranch parse t =
     (if \<not> hasHttpScheme t then Inl (Send 400 ''Invalid 'to' URL (must start with http/https).'')
      else
        (case parse t of
           None \<Rightarrow> Inl (Send 400 ''Target host not allowed.'')
         | Some u \<Rightarrow>
             if toLowerCase (hostname u) \<in> {''www.amazon.in'', ''amazon.in'', ''amzn.to'', ''m.amazon.in''}
             then Inr (href u)
             else Inl (Send 400 ''Target host not allowed.'')))"

definition identifierBranch :: "string \<Rightarrow> string \<Rightarrow> reply + string" where
  "identifierBranch asinParam tagParam =
     (if extractAsin asinParam = []
      then Inl (Send 400 ''Missing target. Provide ?to=<url> or ?asin=<ASIN>.'')
      else Inr (''https://www.amazon.in/dp/'' @ encodeURIComponent (extractAsin asinParam) @
                ''?tag='' @ encodeURIComponent (effectiveTag tagParam)))"

text \<open>
  A path-shaped match, in the words of the specification: the input is \<open>pre\<close>, then one
  of the three path prefixes in any case, then an identifier of ten ASCII letters or
  digits, then \<open>post\<close>, which is empty or starts with \<^verbatim>\<open>/\<close> or \<^verbatim>\<open>?\<close>.
\<close>

definition pathShaped :: "string \<Rightarrow> string \<Rightarrow> string \<Rightarrow> string \<Rightarrow> string \<Rightarrow> bool" where
  "pathShaped s pre p ident post =
     (s = pre @ p @ ident @ post \<and>
      toLowerCase p \<in> {''/dp/'', ''/gp/product/'', ''/product/''} \<and>
      length ident = 10 \<and> list_all isAlnumChar ident \<and>
      (post = [] \<or> hd post = CHR ''/'' \<or> hd post = CHR ''?''))"

subsection \<open>Sample data\<close>

text \<open>
  \<open>sampleParse\<close> stands for \<^verbatim>\<open>new URL\<close> at the inputs of the examples below: each entry of
  the table is what the platform's parser returns for that input (the scheme and the
  host in lower case, the rest unchanged). It rejects every other string, among them
  the strings without a scheme used in the examples, which the platform's parser
  rejects too. \<open>noParams\<close> is a request without parameters and headers.
\<close>

definition sampleUrls :: "(string \<times> url) list" where
  "sampleUrls =
     [(''https://www.amazon.in/dp/B08N5WRWNW'',
        \<lparr>hostname = ''www.amazon.in'', href = ''https://www.amazon.in/dp/B08N5WRWNW''\<rparr>),
      (''HTTPS://WWW.AMAZON.IN/dp/B08N5WRWNW'',
        \<lparr>hostname = ''www.amazon.in'', href = ''https://www.amazon.in/dp/B08N5WRWNW''\<rparr>),
      (''https://evil.example/dp/B08N5WRWNW'',
        \<lparr>hostname = ''evil.example'', href = ''https://evil.example/dp/B08N5WRWNW''\<rparr>),
      (''https://shop.www.amazon.in/'',
        \<lparr>hostname = ''shop.www.amazon.in'', href = ''https://shop.www.amazon.in/''\<rparr>),
      (''ftp://evil.example/'',
        \<lparr>hostname = ''evil.example'', href = ''ftp://evil.example/''\<rparr>)]"

definition sampleParse :: urlParser where
  "sampleParse raw = map_of sampleUrls raw"

definition noParams :: request where
  "noParams =
     \<lparr>q_to = None, q_asin = None, q_tag = None, q_src = None, q_created_by = None,
      q_created_at = None, h_x_forwarded_for = None, h_user_agent = None, req_ip = None\<rparr>"

section \<open>Lemmas on code units and on the matcher\<close>

lemma char_of_eval:
  "char_of (n::nat) = Char (odd n) (odd (n div 2)) (odd (n div 4)) (odd (n div 8))
      (odd (n div 16)) (odd (n div 32)) (odd (n div 64)) (odd (n div 128))"
  by (simp add: char_of_def bit_iff_odd)

lemma list_ex_upt_Suc: "list_ex P [a..<Suc b] = (\<exists>n. a \<le> n \<and> n \<le> b \<and> P n)"
  by (auto simp: list_ex_iff)

lemma canonicalize_upper: "65 \<le> n \<Longrightarrow> n \<le> 90 \<Longrightarrow> canonicalize n = n"
  by (simp add: canonicalize_def)

lemma canonicalize_digit: "48 \<le> n \<Longrightarrow> n \<le> 57 \<Longrightarrow> canonicalize n = n"
  by (simp add: canonicalize_def)

lemma canonicalize_is_upper:
  "(65 \<le> canonicalize c \<and> canonicalize c \<le> 90) = ((65 \<le> c \<and> c \<le> 90) \<or> (97 \<le> c \<and> c \<le> 122))"
  unfolding canonicalize_def by (cases "97 \<le> c \<and> c \<le> 122"; cases "224 \<le> c \<and> c \<le> 254 \<and> c \<noteq> 247"; simp; arith) 

lemma canonicalize_is_digit:
  "(48 \<le> canonicalize c \<and> canonicalize c \<le> 57) = (48 \<le> c \<and> c \<le> 57)"
  unfolding canonicalize_def by (cases "97 \<le> c \<and> c \<le> 122"; cases "224 \<le> c \<and> c \<le> 254 \<and> c \<noteq> 247"; simp; arith)

lemma inClass_alnum:
  "inClass True [(CHR ''A'', CHR ''Z''), (CHR ''0'', CHR ''9'')] x = isAlnumCode (code x)"
proof -
  have a: "(\<exists>n. 65 \<le> n \<and> n \<le> 90 \<and> canonicalize n = canonicalize c) = (65 \<le> canonicalize c \<and> canonicalize c \<le> 90)" for c
    by (metis canonicalize_upper)
  have b: "(\<exists>n. 48 \<le> n \<and> n \<le> 57 \<and> canonicalize n = canonicalize c) = (48 \<le> canonicalize c \<and> canonicalize c \<le> 57)" for c
    by (metis canonicalize_digit)
  have c: "code CHR ''A'' = 65" "code CHR ''Z'' = 90" "code CHR ''0'' = 48" "code CHR ''9'' = 57"
    by (simp_all add: code_def)
  show ?thesis
    unfolding inClass_def isAlnumCode_def list_ex_Cons_iff list_ex_Nil_iff prod.case list_ex_upt_Suc c
    by (simp add: a b canonicalize_is_upper canonicalize_is_digit) blast
qed

lemma code_eq_iff: "n < 256 \<Longrightarrow> (code x = n) = (x = char_of n)"
  unfolding code_def by (metis char_of_char of_char_of mod_less)

lemma inClass_delim:
  "inClass True [(CHR ''/'', CHR ''/''), (CHR ''?'', CHR ''?'')] x = (x = CHR ''/'' \<or> x = CHR ''?'')"
proof -
  have c: "code CHR ''/'' = 47" "code CHR ''?'' = 63"
    by (simp_all add: code_def)
  have d: "(canonicalize 47 = canonicalize n) = (n = 47)" "(canonicalize 63 = canonicalize n) = (n = 63)" for n
    by (auto simp: canonicalize_def)
  have e: "(code x = 47) = (x = CHR ''/'')" "(code x = 63) = (x = CHR ''?'')"
    by (simp_all add: code_eq_iff char_of_eval)
  have f: "(\<exists>n\<ge>a. n \<le> a \<and> P n) = P a" for a :: nat and P
    by (auto intro: le_antisym)
  show ?thesis
    unfolding inClass_def list_ex_Cons_iff list_ex_Nil_iff prod.case list_ex_upt_Suc c f
    by (simp add: d e)
qed

lemma code_less: "code c < 256"
  unfolding code_def by (metis of_char_mod_256 mod_less_divisor zero_less_numeral)

lemma isLow_facts: "isLow n \<Longrightarrow> isUp (n - 32) \<and> \<not> isUp n \<and> 32 \<le> n"
  unfolding isLow_def isUp_def by arith

lemma isUp_facts: "isUp n \<Longrightarrow> isLow (n + 32) \<and> \<not> isLow n"
  unfolding isLow_def isUp_def by arith

lemma canonicalize_alt: "canonicalize n = (if isLow n then n - 32 else n)"
  unfolding canonicalize_def isLow_def by simp

lemma lowerCode_alt: "lowerCode n = (if isUp n then n + 32 else n)"
  unfolding lowerCode_def isUp_def by simp

lemma canon_lower_arith:
  assumes "lowerCode nc = nc"
  shows "(canonicalize nc = canonicalize nx) = (lowerCode nx = nc)"
proof -
  have nc: "\<not> isUp nc"
    using assms by (auto simp: lowerCode_alt split: if_splits)
  consider (l) "isLow nx" | (u) "isUp nx" | (n) "\<not> isLow nx" "\<not> isUp nx"
    by blast
  then show ?thesis
  proof cases
    case l
    show ?thesis
    proof (cases "isLow nc")
      case True
      with l isLow_facts [of nc] isLow_facts [of nx] show ?thesis
        by (simp add: canonicalize_alt lowerCode_alt) arith
    next
      case False
      with l nc isLow_facts [of nx] show ?thesis
        by (auto simp add: canonicalize_alt lowerCode_alt)
    qed
  next
    case u
    show ?thesis
    proof (cases "isLow nc")
      case True
      with u isLow_facts [of nc] isUp_facts [of nx] show ?thesis
        by (simp add: canonicalize_alt lowerCode_alt) arith
    next
      case False
      with u nc isUp_facts [of nx] show ?thesis
        by (auto simp add: canonicalize_alt lowerCode_alt)
    qed
  next
    case n
    show ?thesis
    proof (cases "isLow nc")
      case True
      with n isLow_facts [of nc] show ?thesis
        by (auto simp add: canonicalize_alt lowerCode_alt)
    next
      case False
      with n show ?thesis
        by (auto simp add: canonicalize_alt lowerCode_alt)
    qed
  qed
qed

lemma lowerCode_less: "n < 256 \<Longrightarrow> lowerCode n < 256"
  unfolding lowerCode_def by auto

lemma sameChar_lower:
  assumes "lowerCode (code c) = code c"
  shows "sameChar True c x = (char_of (lowerCode (code x)) = c)"
proof -
  have "sameChar True c x = (lowerCode (code x) = code c)"
    unfolding sameChar_def using canon_lower_arith [OF assms] by simp
  also have "\<dots> = (char_of (lowerCode (code x)) = c)"
    using lowerCode_less [OF code_less, of x] code_eq_iff [of "lowerCode (code x)" c] code_less [of c]
    by (metis code_def char_of_char of_char_of mod_less)
  finally show ?thesis .
qed

lemma m_rep_Cls:
  "m ic (rep n (Cls rs)) (i, xs, g) k =
     (if n \<le> length xs \<and> list_all (inClass ic rs) (take n xs) then k (i + n, drop n xs, g) else None)"
proof (induction n arbitrary: i xs)
  case 0
  then show ?case by simp
next
  case (Suc n)
  then show ?case by (cases xs) auto
qed

lemma m_lit:
  "m ic (lit cs) (i, xs, g) k =
     (if length cs \<le> length xs \<and> list_all2 (sameChar ic) cs (take (length cs) xs)
      then k (i + length cs, drop (length cs) xs, g) else None)"
proof (induction cs arbitrary: i xs)
  case Nil
  then show ?case by simp
next
  case (Cons c cs)
  then show ?case by (cases xs) auto
qed

lemma inClass_alnum_fun: "inClass True [(CHR ''A'', CHR ''Z''), (CHR ''0'', CHR ''9'')] = isAlnumChar"
  by (simp add: fun_eq_iff inClass_alnum isAlnumChar_def)

lemma m_token:
  "m True (Cat (Grp (rep 10 alnum)) delim) (i, xs, g) k =
     (if tokenAt xs
      then (case drop 10 xs of
              [] \<Rightarrow> k (i + 10, [], Some (take 10 xs))
            | y # ys \<Rightarrow> k (i + 11, ys, Some (take 10 xs)))
      else None)"
  by (auto simp: alnum_def delim_def m_rep_Cls inClass_alnum_fun inClass_delim tokenAt_def delimited_def
      add.commute split: list.splits option.splits)

lemma search_token:
  "group1 (search True (Cat (Grp (rep 10 alnum)) delim) i xs) = firstSome tokenId xs"
proof (induction xs arbitrary: i)
  case Nil
  show ?case by (simp add: m_token tokenId_def tokenAt_def group1_def del: m.simps)
next
  case (Cons x xs)
  show ?case
  proof (cases "tokenAt (x # xs)")
    case True
    then have "take 10 (x # xs) \<noteq> []" by simp
    with True show ?thesis
      by (auto simp add: m_token tokenId_def group1_def simp del: m.simps take_Cons_numeral drop_Cons_numeral split: list.splits)
  next
    case False
    then show ?thesis
      using Cons.IH by (simp add: m_token tokenId_def del: m.simps)
  qed
qed

lemma ci_literal:
  "\<forall>c\<in>set p. lowerCode (code c) = code c \<Longrightarrow>
   (length p \<le> length xs \<and> list_all2 (sameChar True) p (take (length p) xs)) =
   (toLowerCase (take (length p) xs) = p)"
proof (induction p arbitrary: xs)
  case Nil
  then show ?case by (simp add: toLowerCase_def)
next
  case (Cons c p)
  show ?case
  proof (cases xs)
    case Nil
    then show ?thesis by (simp add: toLowerCase_def)
  next
    case (Cons x ys)
    have "(length p \<le> length ys \<and> list_all2 (sameChar True) p (take (length p) ys)) =
          (toLowerCase (take (length p) ys) = p)"
      using Cons.IH [of ys] Cons.prems by simp
    moreover have "sameChar True c x = (char_of (lowerCode (code x)) = c)"
      using Cons.prems by (simp add: sameChar_lower)
    ultimately show ?thesis
      using Cons by (auto simp add: toLowerCase_def)
  qed
qed

lemma m_lit_ci:
  "\<forall>c\<in>set p. lowerCode (code c) = code c \<Longrightarrow>
   m True (lit p) (i, xs, g) k =
     (if startsWithCI p xs then k (i + length p, drop (length p) xs, g) else None)"
  unfolding m_lit startsWithCI_def using ci_literal [of p xs] by simp

lemma m_Chr_lit: "m ic (Chr c) st k = m ic (lit [c]) st k"
  by (cases st) simp

lemma m_lit_append: "m ic (lit (a @ b)) st k = m ic (lit a) st (\<lambda>st'. m ic (lit b) st' k)"
proof (induction a arbitrary: st)
  case Nil
  then show ?case by simp
next
  case (Cons c a)
  obtain i xs g where st: "st = (i, xs, g)" by (cases st)
  show ?case unfolding st using Cons.IH by (cases xs) simp_all
qed

lemma m_Chr_Alt:
  "m ic (Cat (Chr c) (Cat (Alt a b) r)) st k =
   m ic (Alt (Cat (Chr c) (Cat a r)) (Cat (Chr c) (Cat b r))) st k"
proof -
  obtain i xs g where st: "st = (i, xs, g)" by (cases st)
  show ?thesis unfolding st by (cases xs) (simp_all split: option.splits)
qed

lemma m_slash_lit_slash:
  "m ic (Cat (Chr c) (Cat (lit a) (Cat (Chr d) r))) st k =
   m ic (lit (c # a @ [d])) st (\<lambda>st'. m ic r st' k)"
proof -
  have "m ic (lit (c # a @ [d])) st (\<lambda>st'. m ic r st' k) =
        m ic (lit ([c] @ a @ [d])) st (\<lambda>st'. m ic r st' k)"
    by simp
  also have "\<dots> = m ic (lit [c]) st (\<lambda>s1. m ic (lit a) s1 (\<lambda>s2. m ic (lit [d]) s2 (\<lambda>st'. m ic r st' k)))"
    unfolding m_lit_append ..
  also have "\<dots> = m ic (Cat (Chr c) (Cat (lit a) (Cat (Chr d) r))) st k"
    unfolding m_Chr_lit [symmetric] by simp
  finally show ?thesis ..
qed

lemma startsWithCI_take2:
  assumes "startsWithCI p xs" "2 \<le> length p"
  shows "toLowerCase (take 2 xs) = take 2 p"
proof -
  have "take 2 (toLowerCase (take (length p) xs)) = take 2 p"
    using assms by (simp add: startsWithCI_def)
  then show ?thesis
    using assms(2) by (simp add: toLowerCase_def take_map min_def)
qed

lemma pathLen_cases:
  "pathLen xs = Some n \<Longrightarrow>
     (n = 4 \<and> startsWithCI ''/dp/'' xs \<and> \<not> startsWithCI ''/gp/product/'' xs \<and> \<not> startsWithCI ''/product/'' xs) \<or>
     (n = 12 \<and> \<not> startsWithCI ''/dp/'' xs \<and> startsWithCI ''/gp/product/'' xs \<and> \<not> startsWithCI ''/product/'' xs) \<or>
     (n = 9 \<and> \<not> startsWithCI ''/dp/'' xs \<and> \<not> startsWithCI ''/gp/product/'' xs \<and> startsWithCI ''/product/'' xs)"
  using startsWithCI_take2 [of "''/dp/''" xs] startsWithCI_take2 [of "''/gp/product/''" xs]
    startsWithCI_take2 [of "''/product/''" xs]
  by (auto simp: pathLen_def split: if_splits)

lemma lower_fixed:
  "\<forall>c\<in>set ''/dp/''. lowerCode (code c) = code c"
  "\<forall>c\<in>set ''/gp/product/''. lowerCode (code c) = code c"
  "\<forall>c\<in>set ''/product/''. lowerCode (code c) = code c"
  by (simp_all add: lowerCode_def code_def)

lemma m_path_lits:
  "m True (lit ''/dp/'') (i, xs, g) K =
     (if startsWithCI ''/dp/'' xs then K (i + 4, drop 4 xs, g) else None)"
  "m True (lit ''/gp/product/'') (i, xs, g) K =
     (if startsWithCI ''/gp/product/'' xs then K (i + 12, drop 12 xs, g) else None)"
  "m True (lit ''/product/'') (i, xs, g) K =
     (if startsWithCI ''/product/'' xs then K (i + 9, drop 9 xs, g) else None)"
proof -
  have len: "length ''/dp/'' = 4" "length ''/gp/product/'' = 12" "length ''/product/'' = 9"
    by simp_all
  show "m True (lit ''/dp/'') (i, xs, g) K =
     (if startsWithCI ''/dp/'' xs then K (i + 4, drop 4 xs, g) else None)"
    using m_lit_ci [OF lower_fixed(1), of i xs g K] unfolding len .
  show "m True (lit ''/gp/product/'') (i, xs, g) K =
     (if startsWithCI ''/gp/product/'' xs then K (i + 12, drop 12 xs, g) else None)"
    using m_lit_ci [OF lower_fixed(2), of i xs g K] unfolding len .
  show "m True (lit ''/product/'') (i, xs, g) K =
     (if startsWithCI ''/product/'' xs then K (i + 9, drop 9 xs, g) else None)"
    using m_lit_ci [OF lower_fixed(3), of i xs g K] unfolding len .
qed

lemma m_path:
  "m True (pattern re_path) (i, xs, g) k =
     (case pathLen xs of
        None \<Rightarrow> None
      | Some n \<Rightarrow> m True (Cat (Grp (rep 10 alnum)) delim) (i + n, drop n xs, g) k)"
proof -
  define K where "K = (\<lambda>st'. m True (Cat (Grp (rep 10 alnum)) delim) st' k)"
  have e: "CHR ''/'' # ''dp'' @ ''/'' = ''/dp/''" "CHR ''/'' # ''gp/product'' @ ''/'' = ''/gp/product/''"
    "CHR ''/'' # ''product'' @ ''/'' = ''/product/''"
    by simp_all
  have "m True (pattern re_path) (i, xs, g) k =
     (case m True (lit ''/dp/'') (i, xs, g) K of
        Some r \<Rightarrow> Some r
      | None \<Rightarrow>
         (case m True (lit ''/gp/product/'') (i, xs, g) K of
            Some r \<Rightarrow> Some r
          | None \<Rightarrow> m True (lit ''/product/'') (i, xs, g) K))"
    unfolding re_path_def regexp.simps m_Chr_Alt K_def
    unfolding m.simps(4) m_Chr_Alt
    unfolding m.simps(4) m_slash_lit_slash e ..
  also have "\<dots> = (case pathLen xs of None \<Rightarrow> None | Some n \<Rightarrow> K (i + n, drop n xs, g))"
    unfolding m_path_lits
    using pathLen_cases [of xs]
    by (cases "pathLen xs") (auto simp: pathLen_def split: option.splits if_splits)
  finally show ?thesis unfolding K_def .
qed

lemma search_path:
  "group1 (search True (pattern re_path) i xs) = firstSome pathId xs"
proof (induction xs arbitrary: i)
  case Nil
  show ?case
    by (simp add: m_path m_token pathId_def pathLen_def startsWithCI_def toLowerCase_def
        tokenId_def tokenAt_def group1_def del: m.simps)
next
  case (Cons x xs)
  show ?case
  proof (cases "pathId (x # xs)")
    case None
    then show ?thesis
      using Cons.IH
      by (auto simp add: m_path m_token pathId_def tokenId_def simp del: m.simps split: option.splits if_splits)
  next
    case (Some c)
    then obtain n where n: "pathLen (x # xs) = Some n" "tokenAt (drop n (x # xs))" "c = take 10 (drop n (x # xs))"
      by (auto simp: pathId_def tokenId_def split: option.splits if_splits)
    then have "c \<noteq> []" by (auto simp: tokenAt_def)
    with n Some show ?thesis
      by (auto simp add: m_path m_token pathId_def tokenId_def group1_def
          simp del: m.simps take_Cons_numeral drop_Cons_numeral split: list.splits)
  qed
qed

lemma extractAsin_read:
  "extractAsin s =
     (case firstSome pathId (trim s) of
        Some g \<Rightarrow> toUpperCase g
      | None \<Rightarrow> (case firstSome tokenId (trim s) of Some g \<Rightarrow> toUpperCase g | None \<Rightarrow> []))"
proof (cases "s = []")
  case True
  then show ?thesis
    by (simp add: extractAsin_def trim_def pathId_def pathLen_def startsWithCI_def toLowerCase_def
        tokenId_def tokenAt_def)
next
  case False
  have p: "ignoreCase re_path = True" "ignoreCase re_token = True"
    "pattern re_token = Cat (Grp (rep 10 alnum)) delim"
    by (simp_all add: re_path_def re_token_def)
  have a: "group1 (js_match t re_path) = firstSome pathId t" for t
    by (simp add: js_match_def p search_path)
  have b: "group1 (js_match t re_token) = firstSome tokenId t" for t
    by (simp add: js_match_def p search_token)
  from False show ?thesis
    unfolding extractAsin_def Let_def a b by simp
qed

lemma startsWithCI_Nil: "startsWithCI [] xs = True" "startsWithCI (c # p) [] = False"
  by (simp_all add: startsWithCI_def toLowerCase_def)

lemma startsWithCI_Cons:
  "startsWithCI (c # p) (x # xs) = (if lowerCode (code x) = code c then startsWithCI p xs else False)"
proof -
  have "(char_of (lowerCode (code x)) = c) = (lowerCode (code x) = code c)"
    using code_eq_iff [of "lowerCode (code x)" c, OF lowerCode_less [OF code_less]]
    by (metis char_of_char code_def)
  then show ?thesis
    by (simp add: startsWithCI_def toLowerCase_def)
qed

lemma pathId_Nil: "pathId [] = None"
  by (simp add: pathId_def pathLen_def startsWithCI_Nil)

lemma pathId_Cons:
  "pathId (x # xs) =
     (if x = CHR ''/'' then
        (if startsWithCI ''dp/'' xs then tokenId (drop 3 xs)
         else if startsWithCI ''gp/product/'' xs then tokenId (drop 11 xs)
         else if startsWithCI ''product/'' xs then tokenId (drop 8 xs)
         else None)
      else None)"
proof -
  have c: "code CHR ''/'' = 47"
    by (simp add: code_def)
  have "(lowerCode n = 47) = (n = 47)" for n
    by (auto simp: lowerCode_def)
  moreover have "(code x = 47) = (x = CHR ''/'')"
    by (simp add: code_eq_iff char_of_eval)
  ultimately have "(lowerCode (code x) = code CHR ''/'') = (x = CHR ''/'')"
    unfolding c by simp
  moreover have "lowerCode (code CHR ''/'') = code CHR ''/''"
    by (simp add: lowerCode_def code_def)
  ultimately show ?thesis
    by (simp add: pathId_def pathLen_def startsWithCI_Cons)
qed

lemma alnumPrefix_iff: "alnumPrefix n xs = (n \<le> length xs \<and> list_all isAlnumChar (take n xs))"
  by (induction n xs rule: alnumPrefix.induct) auto

lemma alnumPrefix_numeral:
  "alnumPrefix (numeral k) [] = False"
  "alnumPrefix (numeral k) (x # xs) = (if isAlnumChar x then alnumPrefix (pred_numeral k) xs else False)"
  by (simp_all add: numeral_eq_Suc)

lemma tokenId_eval:
  "tokenId xs = (if alnumPrefix 10 xs then (if delimited (drop 10 xs) then Some (take 10 xs) else None) else None)"
  by (simp add: tokenId_def tokenAt_def alnumPrefix_iff)

lemmas eval_rules = trim_def isWhiteSpace_def code_def pathId_Cons pathId_Nil startsWithCI_Cons startsWithCI_Nil
  lowerCode_def char_of_eval tokenId_eval alnumPrefix_numeral isAlnumChar_def isAlnumCode_def delimited_def
  toUpperCase_def canonicalize_def

lemmas string_eval = trim_def isWhiteSpace_def code_def toLowerCase_def lowerCode_def char_of_eval
  orEmpty_def

section \<open>Lemmas on trimming, the scheme test and the handler\<close>

lemma last_dropWhile: "dropWhile P xs \<noteq> [] \<Longrightarrow> last (dropWhile P xs) = last xs"
  by (induction xs) (auto split: if_splits)

lemma trim_ends:
  assumes "trim s \<noteq> []"
  shows "\<not> isWhiteSpace (hd (trim s))" "\<not> isWhiteSpace (last (trim s))"
proof -
  define u where "u = dropWhile isWhiteSpace s"
  define v where "v = dropWhile isWhiteSpace (rev u)"
  have t: "trim s = rev v"
    by (simp add: trim_def u_def v_def)
  with assms have v: "v \<noteq> []" by simp
  then have u: "u \<noteq> []" by (auto simp: v_def)
  have "hd (trim s) = last v"
    using v by (simp add: t hd_rev)
  also have "\<dots> = last (rev u)"
    using v unfolding v_def by (rule last_dropWhile)
  also have "\<dots> = hd u"
    using u by (simp add: last_rev)
  finally show "\<not> isWhiteSpace (hd (trim s))"
    using u hd_dropWhile [of isWhiteSpace s] by (simp add: u_def)
  have "last (trim s) = hd v"
    using v by (simp add: t last_rev)
  then show "\<not> isWhiteSpace (last (trim s))"
    using v hd_dropWhile [of isWhiteSpace "rev u"] by (simp add: v_def)
qed

lemma trim_id:
  assumes "t = [] \<or> (\<not> isWhiteSpace (hd t) \<and> \<not> isWhiteSpace (last t))"
  shows "trim t = t"
proof (cases t)
  case Nil
  then show ?thesis by (simp add: trim_def)
next
  case (Cons x xs)
  with assms have a: "\<not> isWhiteSpace x" and b: "\<not> isWhiteSpace (last t)" by auto
  have "dropWhile isWhiteSpace t = t"
    using a Cons by simp
  moreover have "hd (rev t) = last t" "rev t \<noteq> []"
    using Cons by (simp_all add: hd_rev)
  then have "dropWhile isWhiteSpace (rev t) = rev t"
    using b by (simp add: dropWhile_eq_self_iff)
  ultimately show ?thesis
    by (simp add: trim_def)
qed

lemma trim_trim: "trim (trim s) = trim s"
  using trim_ends [of s] by (intro trim_id) auto

lemma startsWithCI_prefix: "startsWithCI p xs = prefix p (toLowerCase xs)"
proof -
  have "toLowerCase (take (length p) xs) = take (length p) (toLowerCase xs)"
    by (simp add: toLowerCase_def take_map)
  then show ?thesis
    unfolding startsWithCI_def
    by (metis append_take_drop_id prefixI prefixE append_eq_conv_conj)
qed

lemma startsWithCI_append:
  "startsWithCI (a @ b) xs = (startsWithCI a xs \<and> startsWithCI b (drop (length a) xs))"
proof -
  have d: "toLowerCase (drop n xs) = drop n (toLowerCase xs)" for n
    by (simp add: toLowerCase_def drop_map)
  show ?thesis
    unfolding startsWithCI_prefix d
    by (metis append_eq_conv_conj prefix_def append.assoc)
qed

lemma search_Bol: "0 < i \<Longrightarrow> search ic (Cat Bol r) i xs = None"
  by (induction xs arbitrary: i) simp_all

lemma lower_fixed_scheme:
  "\<forall>c\<in>set ''http''. lowerCode (code c) = code c"
  "\<forall>c\<in>set ''s''. lowerCode (code c) = code c"
  "\<forall>c\<in>set ''://''. lowerCode (code c) = code c"
  by (simp_all add: lowerCode_def code_def)

lemma m_scheme_lits:
  "m True (lit ''http'') (i, xs, g) K =
     (if startsWithCI ''http'' xs then K (i + 4, drop 4 xs, g) else None)"
  "m True (lit ''s'') (i, xs, g) K =
     (if startsWithCI ''s'' xs then K (i + 1, drop 1 xs, g) else None)"
  "m True (lit ''://'') (i, xs, g) K =
     (if startsWithCI ''://'' xs then K (i + 3, drop 3 xs, g) else None)"
proof -
  have len: "length ''http'' = 4" "length ''s'' = 1" "length ''://'' = 3"
    by simp_all
  show "m True (lit ''http'') (i, xs, g) K =
     (if startsWithCI ''http'' xs then K (i + 4, drop 4 xs, g) else None)"
    using m_lit_ci [OF lower_fixed_scheme(1), of i xs g K] unfolding len .
  show "m True (lit ''s'') (i, xs, g) K =
     (if startsWithCI ''s'' xs then K (i + 1, drop 1 xs, g) else None)"
    using m_lit_ci [OF lower_fixed_scheme(2), of i xs g K] unfolding len .
  show "m True (lit ''://'') (i, xs, g) K =
     (if startsWithCI ''://'' xs then K (i + 3, drop 3 xs, g) else None)"
    using m_lit_ci [OF lower_fixed_scheme(3), of i xs g K] unfolding len .
qed

lemma m_scheme:
  "m True (pattern re_scheme) (0, xs, g) (\<lambda>st. Some (f st)) \<noteq> None \<longleftrightarrow> hasHttpScheme xs"
proof -
  have a: "''http://'' = ''http'' @ ''://''" "''https://'' = ''http'' @ ''s'' @ ''://''"
    by simp_all
  have len: "length ''http'' = 4" "length ''s'' = 1"
    by simp_all
  have h: "hasHttpScheme xs =
     (startsWithCI ''http'' xs \<and>
       (startsWithCI ''://'' (drop 4 xs) \<or>
        (startsWithCI ''s'' (drop 4 xs) \<and> startsWithCI ''://'' (drop 1 (drop 4 xs)))))"
    unfolding hasHttpScheme_def startsWithCI_prefix [symmetric] a startsWithCI_append len
    by auto
  show ?thesis
    unfolding h re_scheme_def regexp.simps m.simps(3) m.simps(8) m.simps(5) m_Chr_lit m_scheme_lits
    by (auto split: option.splits)
qed

lemma js_test_scheme: "js_test re_scheme t = hasHttpScheme t"
proof (cases t)
  case Nil
  have "\<not> hasHttpScheme []"
    by (simp add: hasHttpScheme_def toLowerCase_def)
  moreover have "m True (pattern re_scheme) (0, [], None) (\<lambda>(j, ys, g). Some ([], g)) \<noteq> None \<longleftrightarrow> hasHttpScheme []"
    using m_scheme [of "[]" None "\<lambda>(j, ys, g). ([], g)"] by (simp add: case_prod_unfold)
  ultimately show ?thesis
    unfolding Nil js_test_def js_match_def by (simp add: re_scheme_def del: m.simps)
next
  case (Cons x xs)
  have p: "pattern re_scheme = Cat Bol (Cat (lit ''http'') (Cat (Opt (Chr CHR ''s'')) (lit ''://'')))"
    by (simp add: re_scheme_def)
  have "m True (pattern re_scheme) (0, t, None) (\<lambda>(j, ys, g). Some (take (j - 0) t, g)) \<noteq> None \<longleftrightarrow> hasHttpScheme t"
    using m_scheme [of t None "\<lambda>(j, ys, g). (take (j - 0) t, g)"] by (simp add: case_prod_unfold)
  moreover have "search True (pattern re_scheme) (Suc 0) xs = None"
    unfolding p by (rule search_Bol) simp
  ultimately show ?thesis
    unfolding js_test_def js_match_def Cons
    by (auto simp add: re_scheme_def simp del: m.simps split: option.splits)
qed

lemma build_effectiveTag:
  "buildAmazonAffiliateUrl a (trim tg) =
     ''https://www.amazon.in/dp/'' @ encodeURIComponent a @ ''?tag='' @ encodeURIComponent (effectiveTag (trim tg))"
proof -
  have d: "trim DEFAULT_AFF_TAG = DEFAULT_AFF_TAG" "DEFAULT_AFF_TAG \<noteq> []"
    by (simp_all add: DEFAULT_AFF_TAG_def trim_def isWhiteSpace_def code_def)
  have "orElse (trim (orElse (trim tg) DEFAULT_AFF_TAG)) DEFAULT_AFF_TAG = effectiveTag (trim tg)"
    using d by (simp add: orElse_def effectiveTag_def trim_trim DEFAULT_AFF_TAG_def)
  then show ?thesis
    by (simp add: buildAmazonAffiliateUrl_def AMAZON_HOST_def)
qed

lemma go_read:
  "go parse req clicks =
     (case (if trim (orEmpty (q_to req)) \<noteq> []
            then directUrlBranch parse (trim (orEmpty (q_to req)))
            else identifierBranch (trim (orEmpty (q_asin req))) (trim (orEmpty (q_tag req)))) of
        Inl r \<Rightarrow> (\<lparr>headers = noStore, reply = r\<rparr>, clicks)
      | Inr targetUrl \<Rightarrow>
          (\<lparr>headers = noStore, reply = Redirect 302 targetUrl\<rparr>, clicks @ [clickDoc req targetUrl]))"
proof (cases "trim (orEmpty (q_to req)) = []")
  case True
  then show ?thesis
    by (simp add: go_def Let_def identifierBranch_def build_effectiveTag clickDoc_def noStore_def
        ENABLE_LOGGING_def)
next
  case False
  then show ?thesis
    by (simp add: go_def Let_def directUrlBranch_def js_test_scheme safeUrl_def isAllowedTarget_def
        orElse_def ALLOWLIST_HOSTS_def clickDoc_def noStore_def ENABLE_LOGGING_def
        split: option.splits)
qed

section \<open>Lemmas on extracted identifiers\<close>

lemma isUpperAlnum_alnum: "isUpperAlnum c \<Longrightarrow> isAlnumChar c"
  by (auto simp: isUpperAlnum_def isAlnumChar_def isAlnumCode_def)


lemma code_char_of: "n < 256 \<Longrightarrow> code (char_of n) = n"
  by (simp add: code_def)

lemma upper_of_alnum:
  assumes "isAlnumChar c"
  shows "code c \<noteq> 0xDF" "isUpperAlnum (char_of (canonicalize (code c)))"
proof -
  from assms show "code c \<noteq> 0xDF"
    by (auto simp: isAlnumChar_def isAlnumCode_def)
  have "canonicalize (code c) < 256"
    using code_less [of c] by (auto simp: canonicalize_def)
  then have "code (char_of (canonicalize (code c))) = canonicalize (code c)"
    by (rule code_char_of)
  moreover have "(48 \<le> canonicalize (code c) \<and> canonicalize (code c) \<le> 57) \<or>
                 (65 \<le> canonicalize (code c) \<and> canonicalize (code c) \<le> 90)"
    using assms canonicalize_is_upper [of "code c"] canonicalize_is_digit [of "code c"]
    by (auto simp: isAlnumChar_def isAlnumCode_def)
  ultimately show "isUpperAlnum (char_of (canonicalize (code c)))"
    by (simp add: isUpperAlnum_def)
qed

lemma toUpperCase_alnum:
  "list_all isAlnumChar g \<Longrightarrow>
     length (toUpperCase g) = length g \<and> list_all isUpperAlnum (toUpperCase g)"
  by (induction g) (simp_all add: toUpperCase_def upper_of_alnum)


lemma firstSome_Some: "firstSome f xs = Some r \<Longrightarrow> \<exists>k. f (drop k xs) = Some r"
proof (induction xs)
  case Nil
  then show ?case by simp
next
  case (Cons x xs)
  show ?case
  proof (cases "f (x # xs)")
    case None
    with Cons obtain k where "f (drop k xs) = Some r" by auto
    then have "f (drop (Suc k) (x # xs)) = Some r" by simp
    then show ?thesis ..
  next
    case (Some a)
    with Cons.prems have "f (drop 0 (x # xs)) = Some r" by simp
    then show ?thesis ..
  qed
qed

lemma tokenId_shape: "tokenId ys = Some g \<Longrightarrow> length g = 10 \<and> list_all isAlnumChar g"
  by (auto simp: tokenId_def tokenAt_def split: if_splits)

lemma pathId_shape: "pathId ys = Some g \<Longrightarrow> length g = 10 \<and> list_all isAlnumChar g"
  by (auto simp: pathId_def dest: tokenId_shape split: option.splits)

lemma extractAsin_shape:
  "extractAsin s = [] \<or> (length (extractAsin s) = 10 \<and> list_all isUpperAlnum (extractAsin s))"
proof (cases "firstSome pathId (trim s)")
  case (Some g)
  then have "length g = 10 \<and> list_all isAlnumChar g"
    by (auto dest!: firstSome_Some pathId_shape)
  with Some show ?thesis
    using toUpperCase_alnum [of g] by (simp add: extractAsin_read)
next
  case None
  show ?thesis
  proof (cases "firstSome tokenId (trim s)")
    case (Some g)
    then have "length g = 10 \<and> list_all isAlnumChar g"
      by (auto dest!: firstSome_Some tokenId_shape)
    with None Some show ?thesis
      using toUpperCase_alnum [of g] by (simp add: extractAsin_read)
  next
    case n: None
    with None show ?thesis by (simp add: extractAsin_read)
  qed
qed

lemma encodeURIComponent_alnum: "list_all isAlnumChar r \<Longrightarrow> encodeURIComponent r = r"
  by (induction r) (simp_all add: encodeURIComponent_def uriUnreserved_def)

lemma alnum_not_special:
  "isAlnumChar c \<Longrightarrow> \<not> isWhiteSpace c \<and> c \<noteq> CHR ''/'' \<and> c \<noteq> CHR ''?''"
  by (auto simp: isAlnumChar_def isAlnumCode_def isWhiteSpace_def code_def)



section \<open>Lemmas on the response and the written document\<close>

lemma branch_Inl_Send:
  "directUrlBranch parse t = Inl r \<Longrightarrow> \<exists>b. r = Send 400 b"
  "identifierBranch a tg = Inl r \<Longrightarrow> \<exists>b. r = Send 400 b"
  by (auto simp: directUrlBranch_def identifierBranch_def split: if_splits option.splits)

lemma go_success:
  assumes "reply (fst (go parse req clicks)) = Redirect n D"
  shows "go parse req clicks =
           (\<lparr>headers = noStore, reply = Redirect 302 D\<rparr>, clicks @ [clickDoc req D])"
proof -
  let ?b = "if trim (orEmpty (q_to req)) \<noteq> []
            then directUrlBranch parse (trim (orEmpty (q_to req)))
            else identifierBranch (trim (orEmpty (q_asin req))) (trim (orEmpty (q_tag req)))"
  show ?thesis
  proof (cases ?b)
    case (Inl r)
    then obtain b where "r = Send 400 b"
      using branch_Inl_Send(1) [of parse _ r] branch_Inl_Send(2) [of _ _ r] by (auto split: if_splits)
    with Inl assms show ?thesis
      by (simp add: go_read)
  next
    case (Inr d)
    with assms show ?thesis
      by (simp add: go_read)
  qed
qed

lemma go_reply:
  "reply (fst (go parse req clicks)) =
     (case (if trim (orEmpty (q_to req)) \<noteq> []
            then directUrlBranch parse (trim (orEmpty (q_to req)))
            else identifierBranch (trim (orEmpty (q_asin req))) (trim (orEmpty (q_tag req)))) of
        Inl r \<Rightarrow> r
      | Inr d \<Rightarrow> Redirect 302 d)"
  by (simp add: go_read split: sum.splits)

lemma split_nonempty: "split sep s \<noteq> []"
  by (induction s) (auto split: list.splits)

lemma split_first:
  "sep \<notin> set a \<Longrightarrow> rest = [] \<or> hd rest = sep \<Longrightarrow> hd (split sep (a @ rest)) = a"
proof (induction a)
  case Nil
  then show ?case by (cases rest) auto
next
  case (Cons c a)
  then show ?case
    using split_nonempty [of sep "a @ rest"] by (auto split: list.splits)
qed

section \<open>Lemmas on path-shaped matches\<close>

lemma delimited_iff: "delimited post = (post = [] \<or> hd post = CHR ''/'' \<or> hd post = CHR ''?'')"
  by (cases post) (simp_all add: delimited_def)

lemma toLowerCase_length: "length (toLowerCase p) = length p"
  by (simp add: toLowerCase_def)

lemma toLowerCase_append: "toLowerCase (a @ b) = toLowerCase a @ toLowerCase b"
  by (simp add: toLowerCase_def)

lemma startsWithCI_self:
  "toLowerCase p = P \<Longrightarrow> startsWithCI P (p @ rest)"
  using toLowerCase_length [of p] by (auto simp add: startsWithCI_def)

lemma startsWithCI_other:
  assumes "toLowerCase p = Q" "\<not> prefix P Q" "length P \<le> length Q"
  shows "\<not> startsWithCI P (p @ rest)"
proof
  assume "startsWithCI P (p @ rest)"
  then have "prefix P (toLowerCase p @ toLowerCase rest)"
    by (simp add: startsWithCI_prefix toLowerCase_append)
  with assms(3) have "prefix P (toLowerCase p)"
    using toLowerCase_length [of p] assms(1) by (auto simp: prefix_append dest: prefix_length_le)
  with assms show False by simp
qed

lemma pathLen_intro:
  assumes "toLowerCase p \<in> {''/dp/'', ''/gp/product/'', ''/product/''}"
  shows "pathLen (p @ rest) = Some (length p)"
proof -
  consider (a) "toLowerCase p = ''/dp/''" | (b) "toLowerCase p = ''/gp/product/''"
    | (c) "toLowerCase p = ''/product/''"
    using assms by auto
  then show ?thesis
  proof cases
    case a
    then show ?thesis
      using startsWithCI_self [OF a, of rest] toLowerCase_length [of p]
      by (simp add: pathLen_def)
  next
    case b
    have "\<not> startsWithCI ''/dp/'' (p @ rest)"
      by (rule startsWithCI_other [OF b]) simp_all
    then show ?thesis
      using startsWithCI_self [OF b, of rest] toLowerCase_length [of p] b
      by (simp add: pathLen_def)
  next
    case c
    have "\<not> startsWithCI ''/dp/'' (p @ rest)"
      by (rule startsWithCI_other [OF c]) simp_all
    moreover have "\<not> startsWithCI ''/gp/product/'' (p @ rest)"
    proof
      assume "startsWithCI ''/gp/product/'' (p @ rest)"
      then have "toLowerCase (take 2 (p @ rest)) = take 2 ''/gp/product/''"
        by (rule startsWithCI_take2) simp
      moreover have "toLowerCase (take 2 (p @ rest)) = take 2 ''/product/''"
        by (rule startsWithCI_take2 [OF startsWithCI_self [OF c]]) simp
      ultimately show False by simp
    qed
    ultimately show ?thesis
      using startsWithCI_self [OF c, of rest] toLowerCase_length [of p] c
      by (simp add: pathLen_def)
  qed
qed

lemma pathId_intro:
  assumes "toLowerCase p \<in> {''/dp/'', ''/gp/product/'', ''/product/''}"
    and "length g = 10" "list_all isAlnumChar g" "delimited post"
  shows "pathId (p @ g @ post) = Some g"
  using pathLen_intro [OF assms(1), of "g @ post"] assms(2-4)
  by (simp add: pathId_def tokenId_def tokenAt_def)

lemma pathLen_elim:
  assumes "pathLen ys = Some n"
  shows "toLowerCase (take n ys) \<in> {''/dp/'', ''/gp/product/'', ''/product/''}"
proof -
  have len: "length ''/dp/'' = 4" "length ''/gp/product/'' = 12" "length ''/product/'' = 9"
    by simp_all
  have "startsWithCI ''/dp/'' ys = (toLowerCase (take 4 ys) = ''/dp/'')"
    "startsWithCI ''/gp/product/'' ys = (toLowerCase (take 12 ys) = ''/gp/product/'')"
    "startsWithCI ''/product/'' ys = (toLowerCase (take 9 ys) = ''/product/'')"
    unfolding startsWithCI_def len by (rule refl)+
  then show ?thesis
    using pathLen_cases [OF assms] by auto
qed

lemma pathId_elim:
  assumes "pathId ys = Some g"
  shows "\<exists>p post. ys = p @ g @ post \<and> toLowerCase p \<in> {''/dp/'', ''/gp/product/'', ''/product/''} \<and>
           length g = 10 \<and> list_all isAlnumChar g \<and> delimited post"
proof -
  from assms obtain n where n: "pathLen ys = Some n" and t: "tokenId (drop n ys) = Some g"
    by (auto simp: pathId_def split: option.splits)
  from t have g: "g = take 10 (drop n ys)" "tokenAt (drop n ys)"
    by (auto simp: tokenId_def split: if_splits)
  have "ys = take n ys @ g @ drop 10 (drop n ys)"
    unfolding g by (metis append_take_drop_id)
  moreover have "length g = 10 \<and> list_all isAlnumChar g \<and> delimited (drop 10 (drop n ys))"
    using g by (auto simp: tokenAt_def)
  ultimately show ?thesis
    using pathLen_elim [OF n] by blast
qed

lemma firstSome_at:
  "f b = Some r \<Longrightarrow> (\<forall>k<length a. f (drop k (a @ b)) = None) \<Longrightarrow> firstSome f (a @ b) = Some r"
proof (induction a)
  case Nil
  then show ?case by (cases b) simp_all
next
  case (Cons c a)
  from Cons.prems(2) have "f (drop 0 ((c # a) @ b)) = None" by blast
  then have h: "f (c # a @ b) = None" by simp
  have "\<forall>k<length a. f (drop k (a @ b)) = None"
  proof (intro allI impI)
    fix k assume "k < length a"
    then have "f (drop (Suc k) ((c # a) @ b)) = None"
      using Cons.prems(2) by (metis Suc_less_eq length_Cons)
    then show "f (drop k (a @ b)) = None" by simp
  qed
  with Cons have "firstSome f (a @ b) = Some r" by blast
  with h show ?case by simp
qed

lemma trim_around:
  assumes "y \<noteq> []" "\<not> isWhiteSpace (hd y)" "\<not> isWhiteSpace (last y)"
  shows "trim (x @ y @ z) = dropWhile isWhiteSpace x @ y @ rev (dropWhile isWhiteSpace (rev z))"
proof -
  have a: "dropWhile isWhiteSpace (x @ y @ z) = dropWhile isWhiteSpace x @ y @ z"
    using assms(1,2) by (cases y) (auto simp: dropWhile_append)
  have "dropWhile isWhiteSpace (rev z @ rev y @ rev (dropWhile isWhiteSpace x)) =
        dropWhile isWhiteSpace (rev z) @ rev y @ rev (dropWhile isWhiteSpace x)"
    using assms(1,3) by (cases "rev y") (auto simp: dropWhile_append last_rev dest: arg_cong [where f = hd] simp: hd_rev)
  then show ?thesis
    by (simp add: trim_def a)
qed

lemma lower_slash: "(char_of (lowerCode (code x)) = CHR ''/'') = (x = CHR ''/'')"
proof -
  have "(char_of (lowerCode (code x)) = CHR ''/'') = (lowerCode (code x) = code CHR ''/'')"
    using code_eq_iff [of "lowerCode (code x)" "CHR ''/''", OF lowerCode_less [OF code_less]]
    by (metis char_of_char code_def)
  also have "\<dots> = (lowerCode (code x) = 47)"
    by (simp add: code_def)
  also have "\<dots> = (code x = 47)"
    by (auto simp: lowerCode_def)
  also have "\<dots> = (x = CHR ''/'')"
    by (simp add: code_eq_iff char_of_eval)
  finally show ?thesis .
qed

lemma path_prefix_shape:
  assumes "toLowerCase p \<in> {''/dp/'', ''/gp/product/'', ''/product/''}"
  shows "p \<noteq> []" "hd p = CHR ''/''" "4 \<le> length p" "length p \<le> 12"
proof -
  from assms show "4 \<le> length p" "length p \<le> 12"
    using toLowerCase_length [of p] by auto
  then show "p \<noteq> []" by auto
  then obtain c q where p: "p = c # q" by (cases p) auto
  with assms have "char_of (lowerCode (code c)) = CHR ''/''"
    by (auto simp: toLowerCase_def)
  then show "hd p = CHR ''/''"
    by (simp add: p lower_slash)
qed

lemma take_drop_ws:
  "pre = takeWhile isWhiteSpace pre @ dropWhile isWhiteSpace pre"
  "post = rev (dropWhile isWhiteSpace (rev post)) @ rev (takeWhile isWhiteSpace (rev post))"
proof -
  show "pre = takeWhile isWhiteSpace pre @ dropWhile isWhiteSpace pre" by simp
  show "post = rev (dropWhile isWhiteSpace (rev post)) @ rev (takeWhile isWhiteSpace (rev post))"
    by (metis rev_append rev_rev_ident takeWhile_dropWhile_id)
qed

lemma ws_not_delimited:
  assumes "b = rev (takeWhile isWhiteSpace (rev post))" "b \<noteq> []"
  shows "\<not> delimited b"
proof -
  have "set b \<subseteq> {c. isWhiteSpace c}"
    unfolding assms(1) by (auto dest: set_takeWhileD)
  moreover from assms(2) have "hd b \<in> set b" by simp
  ultimately have "isWhiteSpace (hd b)" by blast
  then have "hd b \<noteq> CHR ''/'' \<and> hd b \<noteq> CHR ''?''"
    by (auto simp: isWhiteSpace_def code_def)
  with assms(2) show ?thesis
    by (simp add: delimited_iff)
qed

lemma pathShaped_not_before:
  assumes "\<forall>k<n. pathId (drop k s) = None" "pathShaped s pre' p' ident' post'"
  shows "n \<le> length pre'"
proof (rule ccontr)
  assume "\<not> n \<le> length pre'"
  with assms(1) have "pathId (drop (length pre') s) = None" by simp
  moreover have "pathId (p' @ ident' @ post') = Some ident'"
    using assms(2) by (intro pathId_intro) (auto simp: pathShaped_def delimited_iff)
  ultimately show False
    using assms(2) by (simp add: pathShaped_def)
qed

lemma none_before_Suc:
  "(\<forall>k<Suc n. f (drop k (x # xs)) = None) = (f (x # xs) = None \<and> (\<forall>k<n. f (drop k xs) = None))"
proof
  assume a: "\<forall>k<Suc n. f (drop k (x # xs)) = None"
  then have "f (drop 0 (x # xs)) = None" by blast
  moreover have "f (drop k xs) = None" if "k < n" for k
    using a that by (metis Suc_less_eq drop_Suc_Cons)
  ultimately show "f (x # xs) = None \<and> (\<forall>k<n. f (drop k xs) = None)" by simp
next
  assume a: "f (x # xs) = None \<and> (\<forall>k<n. f (drop k xs) = None)"
  show "\<forall>k<Suc n. f (drop k (x # xs)) = None"
  proof (intro allI impI)
    fix k assume "k < Suc n"
    then show "f (drop k (x # xs)) = None"
      using a by (cases k) auto
  qed
qed

lemma none_before_numeral:
  "(\<forall>k<numeral n. f (drop k (x # xs)) = None) =
     (f (x # xs) = None \<and> (\<forall>k<pred_numeral n. f (drop k xs) = None))"
  using none_before_Suc [of "pred_numeral n" f x xs] by (simp add: numeral_eq_Suc)

section \<open>Lemmas on the source of an identifier and on case\<close>

















section \<open>The sample data, evaluated\<close>

lemma sample_trim:
  "trim ''HTTPS://WWW.AMAZON.IN/dp/B08N5WRWNW'' = ''HTTPS://WWW.AMAZON.IN/dp/B08N5WRWNW''"
  "trim ''https://shop.www.amazon.in/'' = ''https://shop.www.amazon.in/''"
  "trim ''https://evil.example/dp/B08N5WRWNW'' = ''https://evil.example/dp/B08N5WRWNW''"
  "trim ''https://'' = ''https://''"
  "trim ''amazon.in/dp/B08N5WRWNW'' = ''amazon.in/dp/B08N5WRWNW''"
  "trim ''ftp://evil.example/'' = ''ftp://evil.example/''"
  by (simp_all add: trim_def isWhiteSpace_def code_def)

lemma sample_scheme:
  "hasHttpScheme ''HTTPS://WWW.AMAZON.IN/dp/B08N5WRWNW''"
  "hasHttpScheme ''https://shop.www.amazon.in/''"
  "hasHttpScheme ''https://evil.example/dp/B08N5WRWNW''"
  "hasHttpScheme ''https://''"
  "\<not> hasHttpScheme ''amazon.in/dp/B08N5WRWNW''"
  "\<not> hasHttpScheme ''ftp://evil.example/''"
  by (simp_all add: hasHttpScheme_def toLowerCase_def lowerCode_def code_def char_of_eval)

lemma sample_lower:
  "toLowerCase ''www.amazon.in'' = ''www.amazon.in''"
  "toLowerCase ''shop.www.amazon.in'' = ''shop.www.amazon.in''"
  "toLowerCase ''evil.example'' = ''evil.example''"
  by (simp_all add: toLowerCase_def lowerCode_def code_def char_of_eval)

lemma sample_parse:
  "sampleParse ''HTTPS://WWW.AMAZON.IN/dp/B08N5WRWNW'' =
    Some \<lparr>hostname = ''www.amazon.in'', href = ''https://www.amazon.in/dp/B08N5WRWNW''\<rparr>"
  "sampleParse ''https://shop.www.amazon.in/'' =
    Some \<lparr>hostname = ''shop.www.amazon.in'', href = ''https://shop.www.amazon.in/''\<rparr>"
  "sampleParse ''https://evil.example/dp/B08N5WRWNW'' =
    Some \<lparr>hostname = ''evil.example'', href = ''https://evil.example/dp/B08N5WRWNW''\<rparr>"
  "sampleParse ''https://'' = None"
  "sampleParse ''amazon.in/dp/B08N5WRWNW'' = None"
  "sampleParse ''ftp://evil.example/'' =
    Some \<lparr>hostname = ''evil.example'', href = ''ftp://evil.example/''\<rparr>"
  by (simp_all add: sampleParse_def sampleUrls_def)

section \<open>The claims\<close>

text \<open>
  Claim C1, amended. On the direct-URL branch (the trimmed \<^verbatim>\<open>to\<close> is not empty) a
  redirect is issued only if \<^verbatim>\<open>to\<close> begins with \<^verbatim>\<open>http://\<close> or \<^verbatim>\<open>https://\<close>, parses as
  a URL and the lower-cased host of that URL is exactly one of \<^verbatim>\<open>www.amazon.in\<close>,
  \<^verbatim>\<open>amazon.in\<close>, \<^verbatim>\<open>amzn.to\<close> and \<^verbatim>\<open>m.amazon.in\<close>; the destination is then the
  serialised URL, and under these three conditions the redirect is issued. For every
  host outside the set and for every unparsable value the response is 400, nothing is
  written and no redirect is issued; the body is \<^verbatim>\<open>Target host not allowed.\<close> when
  \<^verbatim>\<open>to\<close> begins with \<^verbatim>\<open>http://\<close> or \<^verbatim>\<open>https://\<close>, and the invalid-URL message
  otherwise, because the scheme is tested before the URL is parsed.
\<close>

theorem C1_allowlist:
  assumes "trim (orEmpty (q_to req)) = t" and "t \<noteq> []"
  shows
    "(reply (fst (go parse req clicks)) = Redirect 302 D \<longrightarrow>
        hasHttpScheme t \<and>
        (\<exists>u. parse t = Some u \<and>
             toLowerCase (hostname u) \<in> {''www.amazon.in'', ''amazon.in'', ''amzn.to'', ''m.amazon.in''} \<and>
             D = href u)) \<and>
     (hasHttpScheme t \<longrightarrow> parse t = Some v \<longrightarrow>
        toLowerCase (hostname v) \<in> {''www.amazon.in'', ''amazon.in'', ''amzn.to'', ''m.amazon.in''} \<longrightarrow>
        reply (fst (go parse req clicks)) = Redirect 302 (href v)) \<and>
     (parse t = None \<or>
      (\<exists>u. parse t = Some u \<and>
           toLowerCase (hostname u) \<notin> {''www.amazon.in'', ''amazon.in'', ''amzn.to'', ''m.amazon.in''}) \<longrightarrow>
        go parse req clicks =
          (\<lparr>headers = noStore,
            reply = Send 400 (if hasHttpScheme t then ''Target host not allowed.''
                              else ''Invalid 'to' URL (must start with http/https).'')\<rparr>,
           clicks))"
proof -
  let ?S = "{''www.amazon.in'', ''amazon.in'', ''amzn.to'', ''m.amazon.in''}"
  have b: "directUrlBranch parse t =
     (if \<not> hasHttpScheme t then Inl (Send 400 ''Invalid 'to' URL (must start with http/https).'')
      else (case parse t of
              None \<Rightarrow> Inl (Send 400 ''Target host not allowed.'')
            | Some u \<Rightarrow> if toLowerCase (hostname u) \<in> ?S then Inr (href u)
                        else Inl (Send 400 ''Target host not allowed.'')))"
    by (simp add: directUrlBranch_def)
  have g: "go parse req clicks =
     (case directUrlBranch parse t of
        Inl r \<Rightarrow> (\<lparr>headers = noStore, reply = r\<rparr>, clicks)
      | Inr d \<Rightarrow> (\<lparr>headers = noStore, reply = Redirect 302 d\<rparr>, clicks @ [clickDoc req d]))"
    using assms by (simp add: go_read)
  show ?thesis
  proof (cases "hasHttpScheme t")
    case False
    then show ?thesis by (simp add: g b)
  next
    case True
    show ?thesis
    proof (cases "parse t")
      case None
      with True show ?thesis by (simp add: g b)
    next
      case (Some u)
      with True show ?thesis by (cases "toLowerCase (hostname u) \<in> ?S") (simp_all add: g b)
    qed
  qed
qed

text \<open>An allowed host written in upper case, a subdomain of an allowed host, a foreign
  host, and a value with a scheme that does not parse.\<close>

theorem C1_allowlist_witness:
  "reply (fst (go sampleParse (noParams\<lparr>q_to := Some ''HTTPS://WWW.AMAZON.IN/dp/B08N5WRWNW''\<rparr>) [])) =
     Redirect 302 ''https://www.amazon.in/dp/B08N5WRWNW'' \<and>
   go sampleParse (noParams\<lparr>q_to := Some ''https://shop.www.amazon.in/''\<rparr>) [] =
     (\<lparr>headers = noStore, reply = Send 400 ''Target host not allowed.''\<rparr>, []) \<and>
   go sampleParse (noParams\<lparr>q_to := Some ''https://evil.example/dp/B08N5WRWNW''\<rparr>) [] =
     (\<lparr>headers = noStore, reply = Send 400 ''Target host not allowed.''\<rparr>, []) \<and>
   go sampleParse (noParams\<lparr>q_to := Some ''https://''\<rparr>) [] =
     (\<lparr>headers = noStore, reply = Send 400 ''Target host not allowed.''\<rparr>, [])"
proof -
  have q: "trim (orEmpty (q_to (noParams\<lparr>q_to := Some x\<rparr>))) = trim x" for x
    by (simp add: noParams_def orEmpty_def)
  have a1: "trim (orEmpty (q_to (noParams\<lparr>q_to := Some ''HTTPS://WWW.AMAZON.IN/dp/B08N5WRWNW''\<rparr>))) =
      ''HTTPS://WWW.AMAZON.IN/dp/B08N5WRWNW''"
    unfolding q by (rule sample_trim)
  have m1: "toLowerCase (hostname \<lparr>hostname = ''www.amazon.in'', href = ''https://www.amazon.in/dp/B08N5WRWNW''\<rparr>)
      \<in> {''www.amazon.in'', ''amazon.in'', ''amzn.to'', ''m.amazon.in''}"
    by (simp add: sample_lower)
  have r1: "reply (fst (go sampleParse (noParams\<lparr>q_to := Some ''HTTPS://WWW.AMAZON.IN/dp/B08N5WRWNW''\<rparr>) [])) =
     Redirect 302 ''https://www.amazon.in/dp/B08N5WRWNW''"
    using C1_allowlist [OF a1, where parse = sampleParse and clicks = "[]"
          and v = "\<lparr>hostname = ''www.amazon.in'', href = ''https://www.amazon.in/dp/B08N5WRWNW''\<rparr>",
          THEN conjunct2, THEN conjunct1] sample_scheme(1) sample_parse(1) m1
    by (simp add: sample_lower)
  have a2: "trim (orEmpty (q_to (noParams\<lparr>q_to := Some ''https://shop.www.amazon.in/''\<rparr>))) =
      ''https://shop.www.amazon.in/''"
    unfolding q by (rule sample_trim)
  have m2: "sampleParse ''https://shop.www.amazon.in/'' = None \<or>
      (\<exists>u. sampleParse ''https://shop.www.amazon.in/'' = Some u \<and>
           toLowerCase (hostname u) \<notin> {''www.amazon.in'', ''amazon.in'', ''amzn.to'', ''m.amazon.in''})"
    by (simp add: sample_parse sample_lower)
  have r2: "go sampleParse (noParams\<lparr>q_to := Some ''https://shop.www.amazon.in/''\<rparr>) [] =
     (\<lparr>headers = noStore, reply = Send 400 ''Target host not allowed.''\<rparr>, [])"
    using C1_allowlist [OF a2, where parse = sampleParse and clicks = "[]",
          THEN conjunct2, THEN conjunct2, THEN mp, OF _ m2] sample_scheme(2)
    by simp
  have a3: "trim (orEmpty (q_to (noParams\<lparr>q_to := Some ''https://evil.example/dp/B08N5WRWNW''\<rparr>))) =
      ''https://evil.example/dp/B08N5WRWNW''"
    unfolding q by (rule sample_trim)
  have m3: "sampleParse ''https://evil.example/dp/B08N5WRWNW'' = None \<or>
      (\<exists>u. sampleParse ''https://evil.example/dp/B08N5WRWNW'' = Some u \<and>
           toLowerCase (hostname u) \<notin> {''www.amazon.in'', ''amazon.in'', ''amzn.to'', ''m.amazon.in''})"
    by (simp add: sample_parse sample_lower)
  have r3: "go sampleParse (noParams\<lparr>q_to := Some ''https://evil.example/dp/B08N5WRWNW''\<rparr>) [] =
     (\<lparr>headers = noStore, reply = Send 400 ''Target host not allowed.''\<rparr>, [])"
    using C1_allowlist [OF a3, where parse = sampleParse and clicks = "[]",
          THEN conjunct2, THEN conjunct2, THEN mp, OF _ m3] sample_scheme(3)
    by simp
  have a4: "trim (orEmpty (q_to (noParams\<lparr>q_to := Some ''https://''\<rparr>))) = ''https://''"
    unfolding q by (rule sample_trim)
  have m4: "sampleParse ''https://'' = None \<or>
      (\<exists>u. sampleParse ''https://'' = Some u \<and>
           toLowerCase (hostname u) \<notin> {''www.amazon.in'', ''amazon.in'', ''amzn.to'', ''m.amazon.in''})"
    by (simp add: sample_parse)
  have r4: "go sampleParse (noParams\<lparr>q_to := Some ''https://''\<rparr>) [] =
     (\<lparr>headers = noStore, reply = Send 400 ''Target host not allowed.''\<rparr>, [])"
    using C1_allowlist [OF a4, where parse = sampleParse and clicks = "[]",
          THEN conjunct2, THEN conjunct2, THEN mp, OF _ m4] sample_scheme(4)
    by simp
  from r1 r2 r3 r4 show ?thesis by (simp only: simp_thms)
qed

text \<open>
  Claim C1 as it is stated fails at \<^verbatim>\<open>to=amazon.in/dp/B08N5WRWNW\<close>, which does not
  parse, and at \<^verbatim>\<open>to=ftp://evil.example/\<close>, whose host is outside the set: both are on
  the direct-URL branch, and the response is 400 with the invalid-URL message, not with
  \<^verbatim>\<open>Target host not allowed.\<close>
\<close>

theorem C1_counterexample:
  "trim (orEmpty (q_to (noParams\<lparr>q_to := Some ''amazon.in/dp/B08N5WRWNW''\<rparr>))) \<noteq> [] \<and>
   safeUrl sampleParse (trim ''amazon.in/dp/B08N5WRWNW'') = None \<and>
   go sampleParse (noParams\<lparr>q_to := Some ''amazon.in/dp/B08N5WRWNW''\<rparr>) [] =
     (\<lparr>headers = noStore, reply = Send 400 ''Invalid 'to' URL (must start with http/https).''\<rparr>, []) \<and>
   reply (fst (go sampleParse (noParams\<lparr>q_to := Some ''amazon.in/dp/B08N5WRWNW''\<rparr>) [])) \<noteq>
     Send 400 ''Target host not allowed.'' \<and>
   map_option hostname (safeUrl sampleParse (trim ''ftp://evil.example/'')) = Some ''evil.example'' \<and>
   ''evil.example'' \<notin> ALLOWLIST_HOSTS \<and>
   reply (fst (go sampleParse (noParams\<lparr>q_to := Some ''ftp://evil.example/''\<rparr>) [])) \<noteq>
     Send 400 ''Target host not allowed.''"
proof -
  have q: "trim (orEmpty (q_to (noParams\<lparr>q_to := Some x\<rparr>))) = trim x" for x
    by (simp add: noParams_def orEmpty_def)
  have d: "directUrlBranch sampleParse ''amazon.in/dp/B08N5WRWNW'' =
      Inl (Send 400 ''Invalid 'to' URL (must start with http/https).'')"
    "directUrlBranch sampleParse ''ftp://evil.example/'' =
      Inl (Send 400 ''Invalid 'to' URL (must start with http/https).'')"
    by (simp_all add: directUrlBranch_def sample_scheme)
  have g1: "go sampleParse (noParams\<lparr>q_to := Some ''amazon.in/dp/B08N5WRWNW''\<rparr>) [] =
     (\<lparr>headers = noStore, reply = Send 400 ''Invalid 'to' URL (must start with http/https).''\<rparr>, [])"
    unfolding go_read q sample_trim d by simp
  have g2: "go sampleParse (noParams\<lparr>q_to := Some ''ftp://evil.example/''\<rparr>) [] =
     (\<lparr>headers = noStore, reply = Send 400 ''Invalid 'to' URL (must start with http/https).''\<rparr>, [])"
    unfolding go_read q sample_trim d by simp
  have n: "''evil.example'' \<notin> ALLOWLIST_HOSTS"
    by (simp add: ALLOWLIST_HOSTS_def)
  have s: "safeUrl sampleParse ''amazon.in/dp/B08N5WRWNW'' = None"
    "map_option hostname (safeUrl sampleParse ''ftp://evil.example/'') = Some ''evil.example''"
    by (simp_all add: safeUrl_def sample_parse)
  show ?thesis
    unfolding q g1 g2 sample_trim s using n by simp
qed

text \<open>
  Claim C2. When the \<^verbatim>\<open>to\<close> parameter is non-empty after trimming and does not begin
  with \<^verbatim>\<open>http://\<close> or \<^verbatim>\<open>https://\<close> in any case, the handler answers 400 with the
  invalid-URL message and writes nothing. The answer is the same for every URL parser:
  neither the parser nor the allowlist is consulted, also when the value would be an
  allowed URL with a scheme in front.
\<close>

theorem C2_scheme_required:
  assumes "trim (orEmpty (q_to req)) \<noteq> []"
    and "\<not> prefix ''http://'' (toLowerCase (trim (orEmpty (q_to req))))"
    and "\<not> prefix ''https://'' (toLowerCase (trim (orEmpty (q_to req))))"
  shows "go parse req clicks =
           (\<lparr>headers = noStore,
             reply = Send 400 ''Invalid 'to' URL (must start with http/https).''\<rparr>, clicks)"
  using assms by (simp add: go_read directUrlBranch_def hasHttpScheme_def)

text \<open>The value \<^verbatim>\<open>www.amazon.in/dp/B08N5WRWNW\<close> with a leading blank: with \<^verbatim>\<open>https://\<close>
  in front it is an allowed target, as it stands it is refused.\<close>

theorem C2_scheme_required_witness:
  "isAllowedTarget (safeUrl sampleParse (''https://'' @ ''www.amazon.in/dp/B08N5WRWNW'')) \<and>
   go sampleParse (noParams\<lparr>q_to := Some '' www.amazon.in/dp/B08N5WRWNW''\<rparr>) [] =
     (\<lparr>headers = noStore,
       reply = Send 400 ''Invalid 'to' URL (must start with http/https).''\<rparr>, [])"
proof -
  have "isAllowedTarget (safeUrl sampleParse (''https://'' @ ''www.amazon.in/dp/B08N5WRWNW''))"
    by (simp add: isAllowedTarget_def safeUrl_def sampleParse_def sampleUrls_def orElse_def
        ALLOWLIST_HOSTS_def string_eval)
  moreover have "go sampleParse (noParams\<lparr>q_to := Some '' www.amazon.in/dp/B08N5WRWNW''\<rparr>) [] =
     (\<lparr>headers = noStore,
       reply = Send 400 ''Invalid 'to' URL (must start with http/https).''\<rparr>, [])"
    using C2_scheme_required [of "noParams\<lparr>q_to := Some '' www.amazon.in/dp/B08N5WRWNW''\<rparr>" sampleParse "[]"]
    by (simp add: noParams_def string_eval)
  ultimately show ?thesis by simp
qed

text \<open>
  Claim C3. On the identifier branch (the trimmed \<^verbatim>\<open>to\<close> is empty) with an extractable
  identifier, the handler redirects to \<^verbatim>\<open>https://www.amazon.in/dp/<A>?tag=<T>\<close>, where
  \<open>A\<close> is the identifier and \<open>T\<close> is the trimmed \<^verbatim>\<open>tag\<close> parameter, or
  \<^verbatim>\<open>shop4me0e-21\<close> when that is empty, both percent-encoded (which leaves an identifier
  as it is). With \<^verbatim>\<open>asin=B08N5WRWNW\<close> the destination carries the default tag when no
  tag is given, and \<^verbatim>\<open>mytag-20\<close> when that is the tag.
\<close>

theorem C3_affiliate_destination:
  "(trim (orEmpty (q_to req)) = [] \<longrightarrow> extractAsin (trim (orEmpty (q_asin req))) \<noteq> [] \<longrightarrow>
      reply (fst (go parse req clicks)) =
        Redirect 302
          (''https://www.amazon.in/dp/'' @
           encodeURIComponent (extractAsin (trim (orEmpty (q_asin req)))) @ ''?tag='' @
           encodeURIComponent
             (if trim (orEmpty (q_tag req)) = [] then ''shop4me0e-21''
              else trim (orEmpty (q_tag req)))) \<and>
      encodeURIComponent (extractAsin (trim (orEmpty (q_asin req)))) =
        extractAsin (trim (orEmpty (q_asin req)))) \<and>
   reply (fst (go parse (noParams\<lparr>q_asin := Some ''B08N5WRWNW''\<rparr>) clicks)) =
     Redirect 302 ''https://www.amazon.in/dp/B08N5WRWNW?tag=shop4me0e-21'' \<and>
   reply (fst (go parse (noParams\<lparr>q_asin := Some ''B08N5WRWNW'', q_tag := Some ''mytag-20''\<rparr>) clicks)) =
     Redirect 302 ''https://www.amazon.in/dp/B08N5WRWNW?tag=mytag-20''"
proof -
  have enc: "encodeURIComponent (extractAsin s) = extractAsin s" for s
  proof -
    have "list_all isAlnumChar (extractAsin s)"
      using extractAsin_shape [of s] by (auto simp: list_all_iff isUpperAlnum_alnum)
    then show ?thesis by (rule encodeURIComponent_alnum)
  qed
  have a: "extractAsin ''B08N5WRWNW'' = ''B08N5WRWNW''"
    by (simp add: extractAsin_read eval_rules)
  have t: "trim ''B08N5WRWNW'' = ''B08N5WRWNW''" "trim ''mytag-20'' = ''mytag-20''" "trim [] = []"
    by (simp_all add: trim_def isWhiteSpace_def code_def)
  have e: "encodeURIComponent ''B08N5WRWNW'' = ''B08N5WRWNW''"
    "encodeURIComponent ''shop4me0e-21'' = ''shop4me0e-21''"
    "encodeURIComponent ''mytag-20'' = ''mytag-20''"
    by (simp_all add: encodeURIComponent_def uriUnreserved_def isAlnumChar_def isAlnumCode_def code_def)
  show ?thesis
    by (simp add: go_reply identifierBranch_def effectiveTag_def enc noParams_def orEmpty_def a t e)
qed

text \<open>A lower-case product path as \<^verbatim>\<open>asin\<close> and a tag with blanks.\<close>

theorem C3_affiliate_destination_witness:
  "trim (orEmpty (q_to (noParams\<lparr>q_asin := Some ''/dp/b08n5wrwnw/ref=x'', q_tag := Some '' a b ''\<rparr>))) = [] \<and>
   extractAsin (trim (orEmpty (q_asin (noParams\<lparr>q_asin := Some ''/dp/b08n5wrwnw/ref=x'', q_tag := Some '' a b ''\<rparr>)))) \<noteq> [] \<and>
   reply (fst (go sampleParse (noParams\<lparr>q_asin := Some ''/dp/b08n5wrwnw/ref=x'', q_tag := Some '' a b ''\<rparr>) [])) =
     Redirect 302 ''https://www.amazon.in/dp/B08N5WRWNW?tag=a%20b''"
proof -
  have a: "extractAsin ''/dp/b08n5wrwnw/ref=x'' = ''B08N5WRWNW''"
    by (simp add: extractAsin_read eval_rules)
  have t: "trim ''/dp/b08n5wrwnw/ref=x'' = ''/dp/b08n5wrwnw/ref=x''" "trim '' a b '' = ''a b''" "trim [] = []"
    by (simp_all add: trim_def isWhiteSpace_def code_def)
  have e: "encodeURIComponent ''B08N5WRWNW'' = ''B08N5WRWNW''"
    "encodeURIComponent ''a b'' = ''a%20b''"
    by (simp_all add: encodeURIComponent_def uriUnreserved_def isAlnumChar_def isAlnumCode_def code_def
        percent_def hexDigit_def)
  show ?thesis
    using C3_affiliate_destination [of "noParams\<lparr>q_asin := Some ''/dp/b08n5wrwnw/ref=x'', q_tag := Some '' a b ''\<rparr>" sampleParse "[]"]
    by (simp add: noParams_def orEmpty_def a t e)
qed

text \<open>
  Claim C4. When the trimmed \<^verbatim>\<open>to\<close> parameter is empty and no identifier can be
  extracted from the trimmed \<^verbatim>\<open>asin\<close> parameter, the handler answers 400 with the
  missing-target message, issues no redirect and writes no document: the documents
  written are those written before. In general a document is written only when the
  target is resolved: a call that writes one answers with the redirect to the
  destination the document records.
\<close>

theorem C4_missing_target:
  assumes "trim (orEmpty (q_to req)) = []"
    and "extractAsin (trim (orEmpty (q_asin req))) = []"
  shows "go parse req clicks =
           (\<lparr>headers = noStore,
             reply = Send 400 ''Missing target. Provide ?to=<url> or ?asin=<ASIN>.''\<rparr>, clicks) \<and>
         (snd (go parse' req' clicks') \<noteq> clicks' \<longrightarrow>
            (\<exists>D. reply (fst (go parse' req' clicks')) = Redirect 302 D \<and>
                 snd (go parse' req' clicks') = clicks' @ [clickDoc req' D]))"
proof -
  have "go parse req clicks =
           (\<lparr>headers = noStore,
             reply = Send 400 ''Missing target. Provide ?to=<url> or ?asin=<ASIN>.''\<rparr>, clicks)"
    using assms by (simp add: go_read identifierBranch_def)
  moreover have "\<exists>D. reply (fst (go parse' req' clicks')) = Redirect 302 D \<and>
                 snd (go parse' req' clicks') = clicks' @ [clickDoc req' D]"
    if "snd (go parse' req' clicks') \<noteq> clicks'"
    using that by (simp add: go_read split: sum.splits if_splits)
  ultimately show ?thesis by blast
qed

text \<open>A blank \<^verbatim>\<open>to\<close> and an \<^verbatim>\<open>asin\<close> of five characters.\<close>

theorem C4_missing_target_witness:
  "go sampleParse (noParams\<lparr>q_to := Some ''  '', q_asin := Some ''B08N5''\<rparr>) [] =
     (\<lparr>headers = noStore,
       reply = Send 400 ''Missing target. Provide ?to=<url> or ?asin=<ASIN>.''\<rparr>, [])"
  using C4_missing_target [where req = "noParams\<lparr>q_to := Some ''  '', q_asin := Some ''B08N5''\<rparr>"
      and parse = sampleParse and clicks = "[]", THEN conjunct1]
  by (simp add: noParams_def orEmpty_def extractAsin_read eval_rules)

text \<open>
  Claim C5. Exactly one of the two branches decides the response: the direct-URL branch
  when \<^verbatim>\<open>to\<close> is non-empty after trimming, the identifier branch otherwise. With a
  non-empty \<^verbatim>\<open>to\<close> the \<^verbatim>\<open>asin\<close> and \<^verbatim>\<open>tag\<close> parameters do not change the response;
  with an empty one the URL parser does not.
\<close>

theorem C5_one_branch:
  "reply (fst (go parse req clicks)) =
     (case (if trim (orEmpty (q_to req)) \<noteq> []
            then directUrlBranch parse (trim (orEmpty (q_to req)))
            else identifierBranch (trim (orEmpty (q_asin req))) (trim (orEmpty (q_tag req)))) of
        Inl r \<Rightarrow> r
      | Inr d \<Rightarrow> Redirect 302 d) \<and>
   (trim (orEmpty (q_to req)) \<noteq> [] \<longrightarrow>
      reply (fst (go parse (req\<lparr>q_asin := a, q_tag := t\<rparr>) clicks)) =
      reply (fst (go parse req clicks))) \<and>
   (trim (orEmpty (q_to req)) = [] \<longrightarrow>
      reply (fst (go parse' req clicks)) = reply (fst (go parse req clicks)))"
  by (simp add: go_reply)

text \<open>The same direct URL with and without \<^verbatim>\<open>asin\<close> and \<^verbatim>\<open>tag\<close>, and the same
  identifier with two parsers.\<close>

theorem C5_one_branch_witness:
  "trim (orEmpty (q_to (noParams\<lparr>q_to := Some ''https://www.amazon.in/dp/B08N5WRWNW''\<rparr>))) \<noteq> [] \<and>
   reply (fst (go sampleParse
     (noParams\<lparr>q_to := Some ''https://www.amazon.in/dp/B08N5WRWNW'',
               q_asin := Some ''B000000000'', q_tag := Some ''other-21''\<rparr>) [])) =
   reply (fst (go sampleParse (noParams\<lparr>q_to := Some ''https://www.amazon.in/dp/B08N5WRWNW''\<rparr>) [])) \<and>
   trim (orEmpty (q_to (noParams\<lparr>q_asin := Some ''B08N5WRWNW''\<rparr>))) = [] \<and>
   reply (fst (go (\<lambda>raw. None) (noParams\<lparr>q_asin := Some ''B08N5WRWNW''\<rparr>) [])) =
   reply (fst (go sampleParse (noParams\<lparr>q_asin := Some ''B08N5WRWNW''\<rparr>) []))"
proof -
  have t: "trim ''https://www.amazon.in/dp/B08N5WRWNW'' = ''https://www.amazon.in/dp/B08N5WRWNW''"
    "trim [] = []"
    by (simp_all add: trim_def isWhiteSpace_def code_def)
  show ?thesis
    using C5_one_branch [where parse = sampleParse
          and req = "noParams\<lparr>q_to := Some ''https://www.amazon.in/dp/B08N5WRWNW''\<rparr>"
          and clicks = "[]" and a = "Some ''B000000000''" and t = "Some ''other-21''"]
      C5_one_branch [where parse = sampleParse and req = "noParams\<lparr>q_asin := Some ''B08N5WRWNW''\<rparr>"
          and clicks = "[]" and parse' = "\<lambda>raw. None"]
    by (simp add: noParams_def orEmpty_def t)
qed

text \<open>
  Claim C6. Where the platform's parser reads \<^verbatim>\<open>https://www.amazon.in/dp/B08N5WRWNW\<close>
  as a URL with host \<^verbatim>\<open>www.amazon.in\<close> and that same serialised form, the request with
  this \<^verbatim>\<open>to\<close> and no \<^verbatim>\<open>asin\<close> is redirected with status 302 to exactly that URL, and
  the document written has the identifier \<^verbatim>\<open>B08N5WRWNW\<close>. In general the identifier of
  the document of a redirect is extracted from the raw \<^verbatim>\<open>asin\<close> parameter and, when that
  yields nothing, from the destination.
\<close>

theorem C6_direct_url_logged:
  assumes "parse ''https://www.amazon.in/dp/B08N5WRWNW'' =
             Some \<lparr>hostname = ''www.amazon.in'', href = ''https://www.amazon.in/dp/B08N5WRWNW''\<rparr>"
    and "q_to req = Some ''https://www.amazon.in/dp/B08N5WRWNW''"
    and "q_asin req = None"
  shows "reply (fst (go parse req clicks)) = Redirect 302 ''https://www.amazon.in/dp/B08N5WRWNW'' \<and>
         map d_asin (snd (go parse req clicks)) = map d_asin clicks @ [Some ''B08N5WRWNW''] \<and>
         (reply (fst (go parse' req' clicks')) = Redirect 302 D \<longrightarrow>
            map d_asin (snd (go parse' req' clicks')) =
              map d_asin clicks' @
                [if extractAsin (orEmpty (q_asin req')) \<noteq> [] then Some (extractAsin (orEmpty (q_asin req')))
                 else if extractAsin D \<noteq> [] then Some (extractAsin D)
                 else None])"
proof -
  have t: "trim ''https://www.amazon.in/dp/B08N5WRWNW'' = ''https://www.amazon.in/dp/B08N5WRWNW''"
    by (simp add: trim_def isWhiteSpace_def code_def)
  have h: "hasHttpScheme ''https://www.amazon.in/dp/B08N5WRWNW''"
    by (simp add: hasHttpScheme_def toLowerCase_def lowerCode_def code_def char_of_eval)
  have l: "toLowerCase ''www.amazon.in'' = ''www.amazon.in''"
    by (simp add: toLowerCase_def lowerCode_def code_def char_of_eval)
  have r: "reply (fst (go parse req clicks)) = Redirect 302 ''https://www.amazon.in/dp/B08N5WRWNW''"
    using assms by (simp add: go_reply orEmpty_def t directUrlBranch_def h l)
  have a: "extractAsin ''https://www.amazon.in/dp/B08N5WRWNW'' = ''B08N5WRWNW''"
    by (simp add: extractAsin_read eval_rules)
  have e: "extractAsin [] = []"
    by (simp add: extractAsin_def)
  have "map d_asin (snd (go parse req clicks)) = map d_asin clicks @ [Some ''B08N5WRWNW'']"
    using go_success [OF r] assms(3) by (simp add: clickDoc_def orEmpty_def e a orElse_def orNull_def)
  moreover have "map d_asin (snd (go parse' req' clicks')) =
              map d_asin clicks' @
                [if extractAsin (orEmpty (q_asin req')) \<noteq> [] then Some (extractAsin (orEmpty (q_asin req')))
                 else if extractAsin D \<noteq> [] then Some (extractAsin D)
                 else None]"
    if "reply (fst (go parse' req' clicks')) = Redirect 302 D"
    using go_success [OF that] by (simp add: clickDoc_def orElse_def orNull_def)
  ultimately show ?thesis
    using r by blast
qed

text \<open>The request of the claim, with the sample parser.\<close>

theorem C6_direct_url_logged_witness:
  "reply (fst (go sampleParse (noParams\<lparr>q_to := Some ''https://www.amazon.in/dp/B08N5WRWNW''\<rparr>) [])) =
     Redirect 302 ''https://www.amazon.in/dp/B08N5WRWNW'' \<and>
   map d_asin (snd (go sampleParse (noParams\<lparr>q_to := Some ''https://www.amazon.in/dp/B08N5WRWNW''\<rparr>) [])) =
     [Some ''B08N5WRWNW'']"
  using C6_direct_url_logged [of sampleParse "noParams\<lparr>q_to := Some ''https://www.amazon.in/dp/B08N5WRWNW''\<rparr>" "[]"]
  by (simp add: sampleParse_def sampleUrls_def noParams_def)



text \<open>
  Claim C8. When the input contains a path-shaped match, extraction returns the
  upper-cased identifier of that match, the leftmost one if there are several,
  whatever standalone tokens the input holds elsewhere: the fallback pattern decides
  only when no path pattern matches.
\<close>

theorem C8_path_first:
  assumes occ: "pathShaped s pre p ident post"
    and least: "\<forall>pre' p' ident' post'. pathShaped s pre' p' ident' post' \<longrightarrow> length pre \<le> length pre'"
  shows "extractAsin s = toUpperCase ident"
proof -
  from occ have s: "s = pre @ p @ ident @ post"
    and lp: "toLowerCase p \<in> {''/dp/'', ''/gp/product/'', ''/product/''}"
    and li: "length ident = 10" and al: "list_all isAlnumChar ident" and dl: "delimited post"
    by (auto simp: pathShaped_def delimited_iff)
  note ps = path_prefix_shape [OF lp]
  define x1 where "x1 = dropWhile isWhiteSpace pre"
  define a where "a = takeWhile isWhiteSpace pre"
  define z1 where "z1 = rev (dropWhile isWhiteSpace (rev post))"
  define b where "b = rev (takeWhile isWhiteSpace (rev post))"
  define t where "t = x1 @ p @ ident @ z1"
  have pre: "pre = a @ x1" and post: "post = z1 @ b"
    unfolding a_def x1_def z1_def b_def by (rule take_drop_ws)+
  have "ident \<noteq> []" using li by auto
  then have "isAlnumChar (last ident)"
    using al by (auto simp: list_all_iff)
  then have "\<not> isWhiteSpace (last (p @ ident))"
    using \<open>ident \<noteq> []\<close> by (auto dest: alnum_not_special)
  moreover have "\<not> isWhiteSpace (hd (p @ ident))"
    using ps(1,2) by (simp add: isWhiteSpace_def code_def)
  ultimately have "trim (pre @ (p @ ident) @ post) = x1 @ (p @ ident) @ z1"
    unfolding x1_def z1_def using ps(1) by (intro trim_around) auto
  then have tr: "trim s = t"
    by (simp add: s t_def)
  have sab: "s = a @ t @ b"
    unfolding s t_def by (subst pre, subst post) simp
  have dz: "delimited z1"
  proof (cases "z1 = []")
    case True
    then show ?thesis by (simp add: delimited_def)
  next
    case False
    then have "hd post = hd z1" "post \<noteq> []" by (subst post, simp)+
    with dl False show ?thesis by (simp add: delimited_iff)
  qed
  have hit: "pathId (p @ ident @ z1) = Some ident"
    using lp li al dz by (rule pathId_intro)
  have none: "\<forall>k<length x1. pathId (drop k (x1 @ p @ ident @ z1)) = None"
  proof (intro allI impI, rule ccontr)
    fix k
    assume k: "k < length x1" and "pathId (drop k (x1 @ p @ ident @ z1)) \<noteq> None"
    then obtain g where "pathId (drop k t) = Some g"
      by (auto simp: t_def)
    from pathId_elim [OF this] obtain p2 post2 where
      d: "drop k t = p2 @ g @ post2"
      and lp2: "toLowerCase p2 \<in> {''/dp/'', ''/gp/product/'', ''/product/''}"
      and lg: "length g = 10" and alg: "list_all isAlnumChar g" and dl2: "delimited post2"
      by blast
    have kt: "length (take k t) = k"
      using k by (simp add: t_def)
    have t2: "t = take k t @ p2 @ g @ post2"
      using d by (metis append_take_drop_id)
    have s2: "s = (a @ take k t) @ p2 @ g @ (post2 @ b)"
      by (subst sab, subst t2) simp
    show False
    proof (cases "delimited (post2 @ b)")
      case True
      with s2 lp2 lg alg have "pathShaped s (a @ take k t) p2 g (post2 @ b)"
        unfolding pathShaped_def delimited_iff [symmetric] by blast
      with least have "length pre \<le> length (a @ take k t)" by blast
      with k kt show False by (simp add: pre)
    next
      case False
      have p2e: "post2 = []"
      proof (rule ccontr)
        assume "post2 \<noteq> []"
        then have "delimited (post2 @ b) = delimited post2"
          by (simp add: delimited_iff)
        with False dl2 show False by simp
      qed
      with False have nb: "\<not> delimited b" by simp
      have "z1 \<noteq> []"
      proof
        assume "z1 = []"
        with post dl nb show False by simp
      qed
      then obtain c z2 where z: "z1 = c # z2" by (cases z1) auto
      with dz have c: "c = CHR ''/'' \<or> c = CHR ''?''"
        by (simp add: delimited_def)
      define j where "j = length x1 + length p + 10"
      have dj: "drop j t = c # z2"
        unfolding j_def t_def z using li by simp
      have tg: "t = (take k t @ p2) @ g"
        using t2 p2e by simp
      have "j < k + length p2"
      proof (rule ccontr)
        assume "\<not> j < k + length p2"
        then have "length (take k t @ p2) \<le> j" using kt by simp
        then have "drop j t = drop (j - length (take k t @ p2)) g"
          by (subst tg) (simp del: append_assoc)
        with dj have "c \<in> set g"
          by (metis in_set_dropD list.set_intros(1))
        with alg have "isAlnumChar c" by (simp add: list_all_iff)
        with c show False by (auto dest: alnum_not_special)
      qed
      with k ps(3) path_prefix_shape(4) [OF lp2] show False
        by (simp add: j_def)
    qed
  qed
  have "firstSome pathId (x1 @ p @ ident @ z1) = Some ident"
    using hit none by (rule firstSome_at)
  then show ?thesis
    by (simp add: extractAsin_read tr t_def)
qed

text \<open>An input with blanks around it in which a standalone token of ten letters comes
  before the path: the fallback pattern alone would find the token, extraction returns
  the identifier of the path.\<close>

theorem C8_path_first_witness:
  "pathShaped '' https://amzn.to/ABCDEFGHIJ/dp/b08n5wrwnw?x ''
      '' https://amzn.to/ABCDEFGHIJ'' ''/dp/'' ''b08n5wrwnw'' ''?x '' \<and>
   firstSome tokenId (trim '' https://amzn.to/ABCDEFGHIJ/dp/b08n5wrwnw?x '') = Some ''ABCDEFGHIJ'' \<and>
   extractAsin '' https://amzn.to/ABCDEFGHIJ/dp/b08n5wrwnw?x '' = ''B08N5WRWNW''"
proof -
  let ?s = "'' https://amzn.to/ABCDEFGHIJ/dp/b08n5wrwnw?x ''"
  have occ: "pathShaped ?s '' https://amzn.to/ABCDEFGHIJ'' ''/dp/'' ''b08n5wrwnw'' ''?x ''"
    by (simp add: pathShaped_def toLowerCase_def lowerCode_def code_def char_of_eval
        isAlnumChar_def isAlnumCode_def)
  have "\<forall>k<27. pathId (drop k ?s) = None"
    by (simp add: none_before_numeral none_before_Suc pathId_Cons startsWithCI_Cons startsWithCI_Nil
        lowerCode_def code_def)
  then have "\<forall>pre' p' ident' post'. pathShaped ?s pre' p' ident' post' \<longrightarrow> 27 \<le> length pre'"
    using pathShaped_not_before [of 27 ?s] by blast
  moreover have "length '' https://amzn.to/ABCDEFGHIJ'' = 27"
    by simp
  ultimately have least: "\<forall>pre' p' ident' post'. pathShaped ?s pre' p' ident' post' \<longrightarrow>
      length '' https://amzn.to/ABCDEFGHIJ'' \<le> length pre'"
    by (simp only:)
  have tok: "firstSome tokenId (trim ?s) = Some ''ABCDEFGHIJ''"
    by (simp add: eval_rules)
  have up: "toUpperCase ''b08n5wrwnw'' = ''B08N5WRWNW''"
    by (simp add: toUpperCase_def canonicalize_def code_def char_of_eval)
  show ?thesis
    using C8_path_first [OF occ least] occ tok by (simp only: up simp_thms)
qed

text \<open>
  Claim C9 says that extraction yields nothing when no path pattern matches and no
  maximal run of letters and digits has length 10. The fallback pattern has no
  condition on what precedes the ten characters: on the run \<^verbatim>\<open>ABCDEFGHIJK\<close> of eleven
  letters, where the path pattern finds nothing, it matches the last ten, and the
  request \<^verbatim>\<open>asin=ABCDEFGHIJK\<close> is redirected to the product page of \<^verbatim>\<open>BCDEFGHIJK\<close>.
\<close>

theorem C9_eleven_run_matches:
  "group1 (js_match ''ABCDEFGHIJK'' re_path) = None \<and>
   list_all isAlnumChar ''ABCDEFGHIJK'' \<and>
   length ''ABCDEFGHIJK'' = 11 \<and>
   group1 (js_match ''ABCDEFGHIJK'' re_token) = Some ''BCDEFGHIJK'' \<and>
   extractAsin ''ABCDEFGHIJK'' = ''BCDEFGHIJK'' \<and>
   reply (fst (go parse (noParams\<lparr>q_asin := Some ''ABCDEFGHIJK''\<rparr>) clicks)) =
     Redirect 302 ''https://www.amazon.in/dp/BCDEFGHIJK?tag=shop4me0e-21''"
proof -
  have p: "ignoreCase re_path = True" "ignoreCase re_token = True"
    "pattern re_token = Cat (Grp (rep 10 alnum)) delim"
    by (simp_all add: re_path_def re_token_def)
  have "group1 (js_match ''ABCDEFGHIJK'' re_path) = None"
    unfolding js_match_def p search_path by (simp add: eval_rules)
  moreover have "group1 (js_match ''ABCDEFGHIJK'' re_token) = Some ''BCDEFGHIJK''"
    unfolding js_match_def p search_token by (simp add: eval_rules)
  moreover have a: "extractAsin ''ABCDEFGHIJK'' = ''BCDEFGHIJK''"
    by (simp add: extractAsin_read eval_rules)
  moreover have "list_all isAlnumChar ''ABCDEFGHIJK''"
    by (simp add: isAlnumChar_def isAlnumCode_def code_def)
  moreover have "reply (fst (go parse (noParams\<lparr>q_asin := Some ''ABCDEFGHIJK''\<rparr>) clicks)) =
     Redirect 302 ''https://www.amazon.in/dp/BCDEFGHIJK?tag=shop4me0e-21''"
  proof -
    have t: "trim ''ABCDEFGHIJK'' = ''ABCDEFGHIJK''" "trim [] = []"
      by (simp_all add: trim_def isWhiteSpace_def code_def)
    have e: "encodeURIComponent ''BCDEFGHIJK'' = ''BCDEFGHIJK''"
      "encodeURIComponent ''shop4me0e-21'' = ''shop4me0e-21''"
      by (simp_all add: encodeURIComponent_def uriUnreserved_def isAlnumChar_def isAlnumCode_def code_def)
    show ?thesis
      by (simp add: go_reply identifierBranch_def effectiveTag_def noParams_def orEmpty_def a t e)
  qed
  ultimately show ?thesis by simp
qed

text \<open>
  Claim C10. On a redirect, the \<^verbatim>\<open>ip\<close> field of the document written is the first
  comma-separated component of the \<^verbatim>\<open>x-forwarded-for\<close> header, trimmed; when that is
  empty, the peer address; and \<^verbatim>\<open>null\<close> when both are empty. Of several addresses in
  the header only the first is recorded.
\<close>

theorem C10_client_ip:
  assumes "reply (fst (go parse req clicks)) = Redirect 302 D"
    and "orEmpty (h_x_forwarded_for req) = first @ rest"
    and "CHR '','' \<notin> set first"
    and "rest = [] \<or> hd rest = CHR '',''"
  shows "map d_ip (snd (go parse req clicks)) =
           map d_ip clicks @
             [if trim first \<noteq> [] then Some (trim first)
              else if orEmpty (req_ip req) \<noteq> [] then Some (orEmpty (req_ip req))
              else None]"
  using go_success [OF assms(1)] split_first [OF assms(3) assms(4)] assms(2)
  by (simp add: clickDoc_def orElse_def orNull_def)

text \<open>A header of three addresses, a header whose first component is blank, and no
  header and no peer address.\<close>

theorem C10_client_ip_witness:
  "map d_ip (snd (go sampleParse
     (noParams\<lparr>q_asin := Some ''B08N5WRWNW'', h_x_forwarded_for := Some '' 203.0.113.7 , 10.0.0.1, 10.0.0.2'',
               req_ip := Some ''10.0.0.2''\<rparr>) [])) = [Some ''203.0.113.7''] \<and>
   map d_ip (snd (go sampleParse
     (noParams\<lparr>q_asin := Some ''B08N5WRWNW'', h_x_forwarded_for := Some '' ,10.0.0.1'',
               req_ip := Some ''10.0.0.2''\<rparr>) [])) = [Some ''10.0.0.2''] \<and>
   map d_ip (snd (go sampleParse (noParams\<lparr>q_asin := Some ''B08N5WRWNW''\<rparr>) [])) = [None]"
proof -
  have a: "extractAsin ''B08N5WRWNW'' = ''B08N5WRWNW''"
    by (simp add: extractAsin_read eval_rules)
  have t: "trim ''B08N5WRWNW'' = ''B08N5WRWNW''" "trim [] = []" "trim '' 203.0.113.7 '' = ''203.0.113.7''"
    "trim '' '' = []"
    by (simp_all add: trim_def isWhiteSpace_def code_def)
  have r: "reply (fst (go sampleParse (noParams\<lparr>q_asin := Some ''B08N5WRWNW'', h_x_forwarded_for := x, req_ip := y\<rparr>) [])) =
     Redirect 302 (''https://www.amazon.in/dp/'' @ encodeURIComponent ''B08N5WRWNW'' @ ''?tag='' @ encodeURIComponent ''shop4me0e-21'')" for x y
    by (simp add: go_reply identifierBranch_def effectiveTag_def noParams_def orEmpty_def a t)
  show ?thesis
    using C10_client_ip [OF r [where x = "Some '' 203.0.113.7 , 10.0.0.1, 10.0.0.2''" and y = "Some ''10.0.0.2''"],
          where first = "'' 203.0.113.7 ''" and rest = "'', 10.0.0.1, 10.0.0.2''"]
      C10_client_ip [OF r [where x = "Some '' ,10.0.0.1''" and y = "Some ''10.0.0.2''"],
          where first = "'' ''" and rest = "'',10.0.0.1''"]
      C10_client_ip [OF r [where x = None and y = None], where first = "[]" and rest = "[]"]
    by (simp add: noParams_def orEmpty_def t)
qed

end
